theory Spec2Isabelle
  imports Main
begin

section \<open>Characters and strings of the grammar files\<close>

text \<open>
  The program keeps every production body in a Python \<open>str\<close> and reads it one
  character at a time.  A character is modelled by a \<open>char\<close>: the ASCII characters
  are themselves, and the two Greek letters the program can meet, the small epsilon
  that marks the empty body and its upper-case form, sit at their ISO 8859-7
  positions.  Every other \<open>char\<close> stands for a character that has no case and is
  no digit.
\<close>

definition ascii_lowercase :: string where
  "ascii_lowercase = ''abcdefghijklmnopqrstuvwxyz''"

definition ascii_uppercase :: string where
  "ascii_uppercase = ''ABCDEFGHIJKLMNOPQRSTUVWXYZ''"

definition ascii_digits :: string where
  "ascii_digits = ''0123456789''"

definition eps_ch :: char where
  "eps_ch = CHR 0xE5"

definition cap_eps_ch :: char where
  "cap_eps_ch = CHR 0xC5"

text \<open>The body \<open>"\<epsilon>"\<close>: a string of one character.\<close>

definition EPS :: string where
  "EPS = [eps_ch]"

definition ch_islower :: "char \<Rightarrow> bool" where
  "ch_islower c = (c \<in> set ascii_lowercase \<or> c = eps_ch)"

definition ch_isupper :: "char \<Rightarrow> bool" where
  "ch_isupper c = (c \<in> set ascii_uppercase \<or> c = cap_eps_ch)"

definition ch_isdigit :: "char \<Rightarrow> bool" where
  "ch_isdigit c = (c \<in> set ascii_digits)"

text \<open>
  \<open>str.islower\<close>, \<open>str.isupper\<close>: at least one cased character and no cased
  character of the other case.  \<open>str.isdigit\<close>: at least one character, all digits.
\<close>

definition str_islower :: "string \<Rightarrow> bool" where
  "str_islower s = (list_ex ch_islower s \<and> \<not> list_ex ch_isupper s)"

definition str_isupper :: "string \<Rightarrow> bool" where
  "str_isupper s = (list_ex ch_isupper s \<and> \<not> list_ex ch_islower s)"

definition str_isdigit :: "string \<Rightarrow> bool" where
  "str_isdigit s = (s \<noteq> [] \<and> list_all ch_isdigit s)"

definition ch_upper :: "char \<Rightarrow> char" where
  "ch_upper c =
     (case map_of (zip ascii_lowercase ascii_uppercase) c of
        Some u \<Rightarrow> u
      | None \<Rightarrow> if c = eps_ch then cap_eps_ch else c)"

definition str_upper :: "string \<Rightarrow> string" where
  "str_upper s = map ch_upper s"

definition is_terminal :: "string \<Rightarrow> bool" where
  "is_terminal ch = (str_islower ch \<or> str_isdigit ch)"

definition is_nonterminal :: "string \<Rightarrow> bool" where
  "is_nonterminal ch = str_isupper ch"

section \<open>Sets and dictionaries\<close>

text \<open>
  A \<open>Set[str]\<close> is a list without repetition, in the order of insertion; a
  \<open>Dict[str, Set[str]]\<close> is an association list in the order of insertion, which is
  the order in which Python iterates over a dictionary.  Python does not fix the order
  in which it iterates over a set of strings: the statements below speak of the members
  of a set, not of their order, and each grammar at which a stage is evaluated has the
  same result sets in every order.
\<close>

type_synonym productions = "(string \<times> string list) list"

definition set_add :: "'a \<Rightarrow> 'a list \<Rightarrow> 'a list" where
  "set_add x xs = (if x \<in> set xs then xs else xs @ [x])"

definition set_update :: "'a list \<Rightarrow> 'a list \<Rightarrow> 'a list" where
  "set_update xs ys = fold set_add ys xs"

definition set_discard :: "'a \<Rightarrow> 'a list \<Rightarrow> 'a list" where
  "set_discard x xs = filter (\<lambda>y. y \<noteq> x) xs"

definition keys :: "productions \<Rightarrow> string list" where
  "keys d = map fst d"

text \<open>\<open>d.get(k, set())\<close>\<close>

definition dict_get :: "productions \<Rightarrow> string \<Rightarrow> string list" where
  "dict_get d k = (case map_of d k of None \<Rightarrow> [] | Some v \<Rightarrow> v)"

text \<open>\<open>d[k]\<close> changed in place by \<open>f\<close>, for a key that \<open>d\<close> has.\<close>

definition dict_upd :: "productions \<Rightarrow> string \<Rightarrow> (string list \<Rightarrow> string list) \<Rightarrow> productions" where
  "dict_upd d k f = map (\<lambda>(k', v). if k' = k then (k', f v) else (k', v)) d"

text \<open>\<open>d.setdefault(k, set()).add(x)\<close>\<close>

definition dict_setdefault_add :: "productions \<Rightarrow> string \<Rightarrow> string \<Rightarrow> productions" where
  "dict_setdefault_add d k x =
     (if k \<in> set (keys d) then dict_upd d k (set_add x) else d @ [(k, [x])])"

text \<open>\<open>{A: set() for A in prods.keys()}\<close>\<close>

definition empty_like :: "productions \<Rightarrow> productions" where
  "empty_like d = map (\<lambda>A. (A, [])) (keys d)"

section \<open>Nullable nonterminals\<close>

text \<open>The innermost loop of \<open>find_nullable\<close>, over the characters of a body.\<close>

fun nullable_body_ok :: "string list \<Rightarrow> string \<Rightarrow> bool" where
  "nullable_body_ok nullable [] = True"
| "nullable_body_ok nullable (ch # b) =
     (if is_terminal [ch] then False
      else if is_nonterminal [ch] \<and> [ch] \<notin> set nullable then False
      else nullable_body_ok nullable b)"

text \<open>The loop over the bodies of one nonterminal, which stops at the first body that fits.\<close>

fun nullable_bodies :: "string list \<Rightarrow> string list \<Rightarrow> bool" where
  "nullable_bodies nullable [] = False"
| "nullable_bodies nullable (b # bodies) =
     (if b = EPS then True
      else if nullable_body_ok nullable b then True
      else nullable_bodies nullable bodies)"

text \<open>One pass of the \<open>while\<close> loop over all entries; the flag is \<open>changed\<close>.\<close>

fun nullable_pass :: "productions \<Rightarrow> string list \<Rightarrow> bool \<Rightarrow> string list \<times> bool" where
  "nullable_pass [] nullable changed = (nullable, changed)"
| "nullable_pass ((A, bodies) # rest) nullable changed =
     (if A \<in> set nullable then nullable_pass rest nullable changed
      else if nullable_bodies nullable bodies
        then nullable_pass rest (set_add A nullable) True
        else nullable_pass rest nullable changed)"

definition nullable_seed :: "productions \<Rightarrow> string list" where
  "nullable_seed prods =
     fold (\<lambda>(A, bodies) nullable. if EPS \<in> set bodies then set_add A nullable else nullable)
       prods []"

lemma set_set_add [simp]: "set (set_add x xs) = insert x (set xs)"
  by (auto simp: set_add_def)

lemma nullable_pass_mono: "nullable_pass P n c = (n', c') \<Longrightarrow> set n \<subseteq> set n'"
  by (induction P n c rule: nullable_pass.induct) (auto split: if_splits)

lemma nullable_pass_keys:
  "nullable_pass P n c = (n', c') \<Longrightarrow> set n' \<subseteq> set n \<union> set (keys P)"
  by (induction P n c rule: nullable_pass.induct) (auto split: if_splits simp: keys_def)

lemma nullable_pass_changed:
  "nullable_pass P n c = (n', True) \<Longrightarrow> \<not> c \<Longrightarrow> \<exists>A \<in> set (keys P). A \<notin> set n \<and> A \<in> set n'"
proof (induction P n c rule: nullable_pass.induct)
  case (1 nullable changed)
  then show ?case by simp
next
  case (2 A bodies rest nullable changed)
  show ?case
  proof (cases "A \<notin> set nullable \<and> nullable_bodies nullable bodies")
    case True
    with 2 have "nullable_pass rest (set_add A nullable) True = (n', True)" by simp
    from nullable_pass_mono [OF this] have "A \<in> set n'" by simp
    with True show ?thesis by (auto simp: keys_def)
  next
    case False
    with 2 show ?thesis by (auto simp: keys_def split: if_splits)
  qed
qed

lemma nullable_pass_decreases:
  assumes p: "nullable_pass P n False = (n', True)"
  shows "card (set (keys P) - set n') < card (set (keys P) - set n)"
proof -
  from nullable_pass_changed [OF p] obtain A
    where A: "A \<in> set (keys P)" "A \<notin> set n" "A \<in> set n'" by auto
  from nullable_pass_mono [OF p] have "set n \<subseteq> set n'" .
  with A have "set (keys P) - set n' \<subset> set (keys P) - set n" by auto
  then show ?thesis by (intro psubset_card_mono) auto
qed

function nullable_loop :: "productions \<Rightarrow> string list \<Rightarrow> string list" where
  "nullable_loop prods nullable =
     (case nullable_pass prods nullable False of
        (nullable', changed) \<Rightarrow> if changed then nullable_loop prods nullable' else nullable')"
  by pat_completeness auto
termination
  by (relation "measure (\<lambda>(P, n). card (set (keys P) - set n))")
     (auto dest: nullable_pass_decreases [OF sym])

declare nullable_loop.simps [simp del]

definition find_nullable :: "string \<Rightarrow> productions \<Rightarrow> string list" where
  "find_nullable start prods = nullable_loop prods (nullable_seed prods)"

section \<open>Elimination of empty productions\<close>

text \<open>
  The stages return the start symbol as they received it, the new productions, and a
  list of messages that no stage reads; the model returns the productions.
\<close>

text \<open>\<open>[i for i, ch in enumerate(b) if is_nonterminal(ch) and ch in nullable]\<close>\<close>

definition nullable_positions :: "string list \<Rightarrow> string \<Rightarrow> nat list" where
  "nullable_positions nullable b =
     map fst (filter (\<lambda>(i, ch). is_nonterminal [ch] \<and> [ch] \<in> set nullable) (enumerate 0 b))"

text \<open>\<open>positions.index(i)\<close>, called only for an \<open>i\<close> that is in \<open>positions\<close>.\<close>

fun list_index :: "'a list \<Rightarrow> 'a \<Rightarrow> nat" where
  "list_index [] x = 0"
| "list_index (y # ys) x = (if y = x then 0 else Suc (list_index ys x))"

text \<open>
  The body of the loop over \<open>mask\<close> (here \<open>msk\<close>), up to the joined string
  \<open>candidate\<close>; \<open>(mask >> pos_idx) & 1\<close> is written with \<open>div\<close> and \<open>mod\<close>.
\<close>

definition mask_candidate :: "nat list \<Rightarrow> string \<Rightarrow> nat \<Rightarrow> string" where
  "mask_candidate positions b msk =
     map snd (filter
       (\<lambda>(i, ch). \<not> (i \<in> set positions \<and> (msk div 2 ^ list_index positions i) mod 2 = 1))
       (enumerate 0 b))"

definition generated_step ::
  "string \<Rightarrow> bool \<Rightarrow> string \<Rightarrow> nat list \<Rightarrow> string \<Rightarrow> nat \<Rightarrow> string list \<Rightarrow> string list" where
  "generated_step start keep_start_epsilon A positions b msk generated =
     (let candidate = mask_candidate positions b msk in
      if candidate = [] then
        (if A = start \<and> keep_start_epsilon then set_add EPS generated else generated)
      else set_add candidate generated)"

definition generated_bodies :: "string \<Rightarrow> bool \<Rightarrow> string list \<Rightarrow> string \<Rightarrow> string \<Rightarrow> string list" where
  "generated_bodies start keep_start_epsilon nullable A b =
     (let positions = nullable_positions nullable b; m = length positions in
      fold (generated_step start keep_start_epsilon A positions b) [0 ..< 2 ^ m] [])"

text \<open>The loop over the bodies of \<open>A\<close>; \<open>new_prods[A]\<close> exists, \<open>A\<close> being a key of \<open>prods\<close>.\<close>

definition epsilon_body_step ::
  "string \<Rightarrow> bool \<Rightarrow> string list \<Rightarrow> string \<Rightarrow> string \<Rightarrow> productions \<Rightarrow> productions" where
  "epsilon_body_step start keep_start_epsilon nullable A b new_prods =
     (if b = EPS then new_prods
      else
        let generated = generated_bodies start keep_start_epsilon nullable A b in
        dict_upd new_prods A (\<lambda>s. set_update s (if generated \<noteq> [] then generated else [b])))"

definition epsilon_main_loop ::
  "string \<Rightarrow> bool \<Rightarrow> string list \<Rightarrow> productions \<Rightarrow> productions \<Rightarrow> productions" where
  "epsilon_main_loop start keep_start_epsilon nullable prods new_prods =
     fold (\<lambda>(A, bodies) np. fold (epsilon_body_step start keep_start_epsilon nullable A) bodies np)
       prods new_prods"

text \<open>
  \<open>new_prods[start].add("\<epsilon>")\<close> runs only when \<open>start\<close> is in \<open>nullable\<close>, hence a
  key of \<open>prods\<close> and of \<open>new_prods\<close>.
\<close>

definition eliminate_epsilon :: "string \<Rightarrow> productions \<Rightarrow> bool \<Rightarrow> productions" where
  "eliminate_epsilon start prods keep_start_epsilon =
     (let nullable = find_nullable start prods;
          new_prods = epsilon_main_loop start keep_start_epsilon nullable prods (empty_like prods);
          new_prods = (if keep_start_epsilon \<and> start \<in> set nullable
                       then dict_upd new_prods start (set_add EPS) else new_prods)
      in fold (\<lambda>A np. if A \<noteq> start then dict_upd np A (set_discard EPS) else np)
           (keys new_prods) new_prods)"

section \<open>Elimination of unit productions\<close>

text \<open>
  The dictionary \<open>unit\<close> is read by key only, as \<open>unit[A]\<close> for a key \<open>A\<close> of \<open>prods\<close>
  and as \<open>unit.get(B, set())\<close>: it is a function that gives the empty set outside
  the keys.
\<close>

definition is_unit_body :: "string \<Rightarrow> bool" where
  "is_unit_body b = (length b = 1 \<and> is_nonterminal b)"

definition unit_init :: "string list \<Rightarrow> string \<Rightarrow> string list" where
  "unit_init nts = (\<lambda>B. if B \<in> set nts then [B] else [])"

definition unit_add_step ::
  "string \<Rightarrow> string \<Rightarrow> (string \<Rightarrow> string list) \<times> bool \<Rightarrow> (string \<Rightarrow> string list) \<times> bool" where
  "unit_add_step A b = (\<lambda>(unit, changed).
     if is_unit_body b \<and> b \<notin> set (unit A)
     then (unit(A := set_add b (unit A)), True) else (unit, changed))"

text \<open>\<open>for B in list(unit[A]): unit[A] |= unit.get(B, set())\<close>\<close>

definition unit_union_step :: "string \<Rightarrow> (string \<Rightarrow> string list) \<Rightarrow> string \<Rightarrow> string list" where
  "unit_union_step A unit =
     fold (\<lambda>B u. u(A := set_update (u A) (u B))) (unit A) unit"

definition unit_pass ::
  "productions \<Rightarrow> string list \<Rightarrow> (string \<Rightarrow> string list) \<times> bool \<Rightarrow> (string \<Rightarrow> string list) \<times> bool" where
  "unit_pass prods nts =
     fold (\<lambda>A st. case fold (unit_add_step A) (dict_get prods A) st of
                     (unit, changed) \<Rightarrow> (unit_union_step A unit, changed)) nts"

lemma set_set_update [simp]: "set (set_update xs ys) = set xs \<union> set ys"
  unfolding set_update_def by (induction ys arbitrary: xs) auto

lemma unit_add_fold_mono:
  "fold (unit_add_step A) bs (u, c) = (u', c') \<Longrightarrow> (\<forall>X. set (u X) \<subseteq> set (u' X)) \<and> (c \<longrightarrow> c')"
proof (induction bs arbitrary: u c)
  case Nil
  then show ?case by simp
next
  case (Cons b bs)
  obtain u1 c1 where s: "unit_add_step A b (u, c) = (u1, c1)" by (cases "unit_add_step A b (u, c)")
  then have m: "(\<forall>X. set (u X) \<subseteq> set (u1 X)) \<and> (c \<longrightarrow> c1)"
    by (auto simp: unit_add_step_def split: if_splits)
  from Cons.prems s have "fold (unit_add_step A) bs (u1, c1) = (u', c')" by simp
  from Cons.IH [OF this] m show ?case by blast
qed

lemma unit_add_fold_changed:
  "fold (unit_add_step A) bs (u, c) = (u', c') \<Longrightarrow> c' \<Longrightarrow> \<not> c \<Longrightarrow>
   \<exists>b \<in> set bs. is_unit_body b \<and> b \<notin> set (u A) \<and> b \<in> set (u' A)"
proof (induction bs arbitrary: u c)
  case Nil
  then show ?case by simp
next
  case (Cons b bs)
  obtain u1 c1 where s: "unit_add_step A b (u, c) = (u1, c1)" by (cases "unit_add_step A b (u, c)")
  from Cons.prems s have f: "fold (unit_add_step A) bs (u1, c1) = (u', c')" by simp
  show ?case
  proof (cases c1)
    case True
    with s Cons.prems(3) have "is_unit_body b" "b \<notin> set (u A)" "b \<in> set (u1 A)"
      by (auto simp: unit_add_step_def split: if_splits)
    moreover from unit_add_fold_mono [OF f] have "set (u1 A) \<subseteq> set (u' A)" by blast
    ultimately show ?thesis by auto
  next
    case False
    from Cons.IH [OF f Cons.prems(2) False] obtain b' where
      b': "b' \<in> set bs" "is_unit_body b'" "b' \<notin> set (u1 A)" "b' \<in> set (u' A)" by blast
    from s have "set (u A) \<subseteq> set (u1 A)"
      by (auto simp: unit_add_step_def split: if_splits)
    with b' show ?thesis by auto
  qed
qed

lemma unit_union_fold_mono:
  "set (u X) \<subseteq> set (fold (\<lambda>B u. u(A := set_update (u A) (u B))) Bs u X)"
proof (induction Bs arbitrary: u)
  case Nil
  then show ?case by simp
next
  case (Cons B Bs)
  have "set (u X) \<subseteq> set ((u(A := set_update (u A) (u B))) X)" by auto
  also have "\<dots> \<subseteq> set (fold (\<lambda>B u. u(A := set_update (u A) (u B))) Bs (u(A := set_update (u A) (u B))) X)"
    by (rule Cons.IH)
  finally show ?case by (simp only: fold.simps o_apply)
qed

lemma unit_union_step_mono: "set (u X) \<subseteq> set (unit_union_step A u X)"
  unfolding unit_union_step_def by (rule unit_union_fold_mono)

lemma unit_pass_mono:
  "unit_pass prods nts (u, c) = (u', c') \<Longrightarrow> (\<forall>X. set (u X) \<subseteq> set (u' X)) \<and> (c \<longrightarrow> c')"
proof (induction nts arbitrary: u c)
  case Nil
  then show ?case by (simp add: unit_pass_def)
next
  case (Cons A nts)
  obtain u1 c1 where a: "fold (unit_add_step A) (dict_get prods A) (u, c) = (u1, c1)"
    by (cases "fold (unit_add_step A) (dict_get prods A) (u, c)")
  from Cons.prems a have r: "unit_pass prods nts (unit_union_step A u1, c1) = (u', c')"
    by (simp add: unit_pass_def)
  from unit_add_fold_mono [OF a] unit_union_step_mono [of u1 _ A] Cons.IH [OF r]
  show ?case by (meson subset_trans)
qed

lemma unit_pass_changed:
  "unit_pass prods nts (u, c) = (u', c') \<Longrightarrow> c' \<Longrightarrow> \<not> c \<Longrightarrow>
   \<exists>A \<in> set nts. \<exists>b \<in> set (dict_get prods A). is_unit_body b \<and> b \<notin> set (u A) \<and> b \<in> set (u' A)"
proof (induction nts arbitrary: u c)
  case Nil
  then show ?case by (simp add: unit_pass_def)
next
  case (Cons A nts)
  obtain u1 c1 where a: "fold (unit_add_step A) (dict_get prods A) (u, c) = (u1, c1)"
    by (cases "fold (unit_add_step A) (dict_get prods A) (u, c)")
  from Cons.prems a have r: "unit_pass prods nts (unit_union_step A u1, c1) = (u', c')"
    by (simp add: unit_pass_def)
  have m1: "\<forall>X. set (u X) \<subseteq> set (unit_union_step A u1 X)"
    using unit_add_fold_mono [OF a] unit_union_step_mono [of u1 _ A] by (meson subset_trans)
  have m2: "\<forall>X. set (unit_union_step A u1 X) \<subseteq> set (u' X)"
    using unit_pass_mono [OF r] by blast
  show ?case
  proof (cases c1)
    case True
    from unit_add_fold_changed [OF a True Cons.prems(3)] obtain b where
      "b \<in> set (dict_get prods A)" "is_unit_body b" "b \<notin> set (u A)" "b \<in> set (u1 A)" by blast
    moreover have "set (u1 A) \<subseteq> set (u' A)"
      using unit_union_step_mono [of u1 A A] m2 by blast
    ultimately show ?thesis by auto
  next
    case False
    from Cons.IH [OF r Cons.prems(2) False] obtain A' b where
      "A' \<in> set nts" "b \<in> set (dict_get prods A')" "is_unit_body b"
      "b \<notin> set (unit_union_step A u1 A')" "b \<in> set (u' A')" by blast
    with m1 show ?thesis by (meson list.set_intros(2) subsetD)
  qed
qed

definition unit_missing :: "productions \<Rightarrow> (string \<Rightarrow> string list) \<Rightarrow> (string \<times> string) set" where
  "unit_missing prods u =
     {(A, b). A \<in> set (keys prods) \<and> b \<in> set (dict_get prods A) \<and> b \<notin> set (u A)}"

lemma finite_unit_missing: "finite (unit_missing prods u)"
proof -
  have "unit_missing prods u \<subseteq> set (keys prods) \<times> (\<Union>A \<in> set (keys prods). set (dict_get prods A))"
    by (auto simp: unit_missing_def)
  then show ?thesis by (rule finite_subset) auto
qed

lemma unit_pass_decreases:
  assumes p: "unit_pass prods (keys prods) (u, False) = (u', True)"
  shows "card (unit_missing prods u') < card (unit_missing prods u)"
proof -
  from unit_pass_mono [OF p] have m: "\<forall>X. set (u X) \<subseteq> set (u' X)" by blast
  from unit_pass_changed [OF p] obtain A b where
    "A \<in> set (keys prods)" "b \<in> set (dict_get prods A)" "b \<notin> set (u A)" "b \<in> set (u' A)" by blast
  then have "(A, b) \<in> unit_missing prods u" "(A, b) \<notin> unit_missing prods u'"
    by (auto simp: unit_missing_def)
  moreover from m have "unit_missing prods u' \<subseteq> unit_missing prods u"
    by (auto simp: unit_missing_def)
  ultimately have "unit_missing prods u' \<subset> unit_missing prods u" by blast
  then show ?thesis by (rule psubset_card_mono [OF finite_unit_missing])
qed

text \<open>The \<open>while changed\<close> loop of \<open>eliminate_unit_productions\<close>.\<close>

function unit_loop :: "productions \<Rightarrow> (string \<Rightarrow> string list) \<Rightarrow> string \<Rightarrow> string list" where
  "unit_loop prods unit =
     (case unit_pass prods (keys prods) (unit, False) of
        (unit', changed) \<Rightarrow> if changed then unit_loop prods unit' else unit')"
  by pat_completeness auto
termination
  by (relation "measure (\<lambda>(P, u). card (unit_missing P u))")
     (auto dest: unit_pass_decreases [OF sym])

declare unit_loop.simps [simp del]

text \<open>The second loop: the bodies of \<open>new_prods[A]\<close>.\<close>

definition unit_copy_bodies :: "productions \<Rightarrow> string \<Rightarrow> string list \<Rightarrow> string list" where
  "unit_copy_bodies prods B acc =
     fold (\<lambda>body acc. if is_unit_body body then acc else set_add body acc) (dict_get prods B) acc"

definition eliminate_unit_productions :: "string \<Rightarrow> productions \<Rightarrow> productions" where
  "eliminate_unit_productions start prods =
     (let nts = keys prods;
          unit = unit_loop prods (unit_init nts)
      in fold (\<lambda>A new_prods.
                 fold (\<lambda>B np. dict_upd np A (unit_copy_bodies prods B)) (unit A) new_prods)
           nts (map (\<lambda>A. (A, [])) nts))"

section \<open>Removal of useless symbols\<close>

fun gen_body_ok :: "string list \<Rightarrow> string \<Rightarrow> bool" where
  "gen_body_ok gen [] = True"
| "gen_body_ok gen (ch # b) =
     (if is_terminal [ch] then gen_body_ok gen b
      else if is_nonterminal [ch] \<and> [ch] \<notin> set gen then False
      else gen_body_ok gen b)"

fun gen_bodies :: "string list \<Rightarrow> string list \<Rightarrow> bool" where
  "gen_bodies gen [] = False"
| "gen_bodies gen (b # bodies) = (if gen_body_ok gen b then True else gen_bodies gen bodies)"

fun gen_pass :: "productions \<Rightarrow> string list \<Rightarrow> bool \<Rightarrow> string list \<times> bool" where
  "gen_pass [] gen changed = (gen, changed)"
| "gen_pass ((A, bodies) # rest) gen changed =
     (if A \<in> set gen then gen_pass rest gen changed
      else if gen_bodies gen bodies then gen_pass rest (set_add A gen) True
      else gen_pass rest gen changed)"

lemma gen_pass_mono: "gen_pass P g c = (g', c') \<Longrightarrow> set g \<subseteq> set g'"
  by (induction P g c rule: gen_pass.induct) (auto split: if_splits)

lemma gen_pass_changed:
  "gen_pass P g c = (g', True) \<Longrightarrow> \<not> c \<Longrightarrow> \<exists>A \<in> set (keys P). A \<notin> set g \<and> A \<in> set g'"
proof (induction P g c rule: gen_pass.induct)
  case (1 gen changed)
  then show ?case by simp
next
  case (2 A bodies rest gen changed)
  show ?case
  proof (cases "A \<notin> set gen \<and> gen_bodies gen bodies")
    case True
    with 2 have "gen_pass rest (set_add A gen) True = (g', True)" by simp
    from gen_pass_mono [OF this] have "A \<in> set g'" by simp
    with True show ?thesis by (auto simp: keys_def)
  next
    case False
    with 2 show ?thesis by (auto simp: keys_def split: if_splits)
  qed
qed

lemma gen_pass_decreases:
  assumes p: "gen_pass P g False = (g', True)"
  shows "card (set (keys P) - set g') < card (set (keys P) - set g)"
proof -
  from gen_pass_changed [OF p] obtain A
    where A: "A \<in> set (keys P)" "A \<notin> set g" "A \<in> set g'" by auto
  from gen_pass_mono [OF p] have "set g \<subseteq> set g'" .
  with A have "set (keys P) - set g' \<subset> set (keys P) - set g" by auto
  then show ?thesis by (intro psubset_card_mono) auto
qed

function gen_loop :: "productions \<Rightarrow> string list \<Rightarrow> string list" where
  "gen_loop prods gen =
     (case gen_pass prods gen False of
        (gen', changed) \<Rightarrow> if changed then gen_loop prods gen' else gen')"
  by pat_completeness auto
termination
  by (relation "measure (\<lambda>(P, g). card (set (keys P) - set g))")
     (auto dest: gen_pass_decreases [OF sym])

declare gen_loop.simps [simp del]

definition generating_nonterminals :: "productions \<Rightarrow> string list" where
  "generating_nonterminals prods = gen_loop prods []"

text \<open>The three nested loops of one pass of \<open>reachable_nonterminals\<close>.\<close>

definition reach_char_step :: "char \<Rightarrow> string list \<times> bool \<Rightarrow> string list \<times> bool" where
  "reach_char_step ch = (\<lambda>(reach, changed).
     if is_nonterminal [ch] \<and> [ch] \<notin> set reach then (set_add [ch] reach, True)
     else (reach, changed))"

definition reach_pass :: "productions \<Rightarrow> string list \<Rightarrow> string list \<times> bool \<Rightarrow> string list \<times> bool" where
  "reach_pass prods snapshot =
     fold (\<lambda>A. fold (\<lambda>b. fold reach_char_step b) (dict_get prods A)) snapshot"

definition body_symbols :: "productions \<Rightarrow> string set" where
  "body_symbols prods = {[ch] | ch A bodies b. (A, bodies) \<in> set prods \<and> b \<in> set bodies \<and> ch \<in> set b}"

definition grows :: "string set \<Rightarrow> string list \<times> bool \<Rightarrow> string list \<times> bool \<Rightarrow> bool" where
  "grows S st st' =
     (set (fst st) \<subseteq> set (fst st') \<and> set (fst st') \<subseteq> set (fst st) \<union> S \<and>
      (snd st' \<longrightarrow> snd st \<or> set (fst st) \<noteq> set (fst st')))"

lemma grows_refl: "grows S st st"
  by (simp add: grows_def)

lemma grows_trans: "grows S a b \<Longrightarrow> grows S b c \<Longrightarrow> grows S a c"
  unfolding grows_def by blast

lemma grows_fold:
  assumes "\<And>x st. x \<in> set xs \<Longrightarrow> grows S st (f x st)"
  shows "grows S st (fold f xs st)"
  using assms
proof (induction xs arbitrary: st)
  case Nil
  then show ?case by (simp add: grows_refl)
next
  case (Cons x xs)
  have "grows S st (f x st)" by (rule Cons.prems) simp
  moreover have "grows S (f x st) (fold f xs (f x st))"
    by (rule Cons.IH) (simp add: Cons.prems)
  ultimately show ?case by (simp add: grows_trans)
qed

lemma grows_reach_char_step: "[ch] \<in> S \<Longrightarrow> grows S st (reach_char_step ch st)"
  by (cases st) (auto simp: grows_def reach_char_step_def)

lemma dict_get_in_set: "b \<in> set (dict_get prods A) \<Longrightarrow> \<exists>bodies. (A, bodies) \<in> set prods \<and> b \<in> set bodies"
  by (auto simp: dict_get_def split: option.splits dest: map_of_SomeD [OF sym])

lemma grows_reach_pass: "grows (body_symbols prods) st (reach_pass prods snapshot st)"
  unfolding reach_pass_def
proof (intro grows_fold)
  fix A b ch st
  assume "b \<in> set (dict_get prods A)" "ch \<in> set b"
  then have "[ch] \<in> body_symbols prods"
    by (auto simp: body_symbols_def dest!: dict_get_in_set)
  then show "grows (body_symbols prods) st (reach_char_step ch st)"
    by (rule grows_reach_char_step)
qed

lemma finite_body_symbols: "finite (body_symbols prods)"
proof -
  have "body_symbols prods = (\<Union>(A, bodies) \<in> set prods. \<Union>b \<in> set bodies. (\<lambda>ch. [ch]) ` set b)"
    by (auto simp: body_symbols_def)
  then show ?thesis by auto
qed

lemma reach_pass_decreases:
  assumes p: "reach_pass prods snapshot (reach, False) = (reach', True)"
  shows "card (body_symbols prods - set reach') < card (body_symbols prods - set reach)"
proof -
  from grows_reach_pass [of prods "(reach, False)" snapshot] p
  have "set reach \<subseteq> set reach'" "set reach' \<subseteq> set reach \<union> body_symbols prods" "set reach \<noteq> set reach'"
    by (auto simp: grows_def)
  then have "body_symbols prods - set reach' \<subset> body_symbols prods - set reach" by blast
  then show ?thesis by (intro psubset_card_mono) (auto simp: finite_body_symbols)
qed

function reach_loop :: "productions \<Rightarrow> string list \<Rightarrow> string list" where
  "reach_loop prods reach =
     (case reach_pass prods reach (reach, False) of
        (reach', changed) \<Rightarrow> if changed then reach_loop prods reach' else reach')"
  by pat_completeness auto
termination
  by (relation "measure (\<lambda>(P, r). card (body_symbols P - set r))")
     (auto dest: reach_pass_decreases [OF sym])

declare reach_loop.simps [simp del]

definition reachable_nonterminals :: "string \<Rightarrow> productions \<Rightarrow> string list" where
  "reachable_nonterminals start prods = reach_loop prods [start]"

text \<open>\<open>d[k] = v\<close>\<close>

definition dict_set :: "productions \<Rightarrow> string \<Rightarrow> string list \<Rightarrow> productions" where
  "dict_set d k v = (if k \<in> set (keys d) then dict_upd d k (\<lambda>_. v) else d @ [(k, v)])"

definition kept_bodies :: "string list \<Rightarrow> string list \<Rightarrow> string list" where
  "kept_bodies gen bodies =
     fold (\<lambda>b kept. if list_all (\<lambda>ch. is_terminal [ch] \<or> [ch] \<in> set gen) b
                     then set_add b kept else kept) bodies []"

definition prods_gen_of :: "string list \<Rightarrow> productions \<Rightarrow> productions" where
  "prods_gen_of gen prods =
     fold (\<lambda>(A, bodies) pg. if A \<notin> set gen then pg else dict_set pg A (kept_bodies gen bodies))
       prods []"

definition remove_useless_symbols :: "string \<Rightarrow> productions \<Rightarrow> productions" where
  "remove_useless_symbols start prods =
     (let gen = generating_nonterminals prods;
          prods_gen = prods_gen_of gen prods;
          reach = reachable_nonterminals start prods_gen;
          prods_final = fold (\<lambda>(A, bodies) pf. if A \<in> set reach then dict_set pf A bodies else pf)
                          prods_gen []
      in if start \<notin> set (keys prods_final) then dict_set prods_final start [] else prods_final)"

section \<open>Conversion to Chomsky normal form\<close>

text \<open>The decimal numeral of \<open>i\<close> that the format string \<open>f"{base}{i}"\<close> writes.\<close>

definition digit_char :: "nat \<Rightarrow> char" where
  "digit_char d = ascii_digits ! d"

fun str_of_nat :: "nat \<Rightarrow> string" where
  "str_of_nat n =
     (if n < 10 then [digit_char n] else str_of_nat (n div 10) @ [digit_char (n mod 10)])"

declare str_of_nat.simps [simp del]

definition nat_of_str :: "string \<Rightarrow> nat" where
  "nat_of_str s = foldl (\<lambda>n c. 10 * n + list_index ascii_digits c) 0 s"

lemma digit_char_index: "d < 10 \<Longrightarrow> list_index ascii_digits (digit_char d) = d"
proof -
  assume "d < 10"
  then have "d \<in> {0, 1, 2, 3, 4, 5, 6, 7, 8, 9}" by auto
  then show ?thesis
    by (auto simp: digit_char_def ascii_digits_def)
qed

lemma nat_of_str_of_nat: "nat_of_str (str_of_nat n) = n"
proof (induction n rule: str_of_nat.induct)
  case (1 n)
  show ?case
  proof (cases "n < 10")
    case True
    then show ?thesis by (simp add: str_of_nat.simps [of n] nat_of_str_def digit_char_index)
  next
    case False
    with 1 have "nat_of_str (str_of_nat (n div 10)) = n div 10" by simp
    with False show ?thesis
      by (simp add: str_of_nat.simps [of n] nat_of_str_def digit_char_index)
  qed
qed

lemma str_of_nat_inj: "str_of_nat i = str_of_nat j \<Longrightarrow> i = j"
  by (metis nat_of_str_of_nat)

definition taken_from :: "string list \<Rightarrow> string \<Rightarrow> nat \<Rightarrow> string set" where
  "taken_from used base i = {c \<in> set used. \<exists>j \<ge> i. c = base @ str_of_nat j}"

lemma taken_from_decreases:
  assumes "base @ str_of_nat i \<in> set used"
  shows "card (taken_from used base (Suc i)) < card (taken_from used base i)"
proof -
  have "taken_from used base (Suc i) \<subseteq> taken_from used base i"
    by (auto simp: taken_from_def intro: Suc_leD)
  moreover from assms have "base @ str_of_nat i \<in> taken_from used base i"
    by (auto simp: taken_from_def)
  moreover have "base @ str_of_nat i \<notin> taken_from used base (Suc i)"
    by (auto simp: taken_from_def dest: str_of_nat_inj)
  ultimately have "taken_from used base (Suc i) \<subset> taken_from used base i" by blast
  then show ?thesis by (intro psubset_card_mono) (simp_all add: taken_from_def)
qed

text \<open>The \<open>while True\<close> loop of \<open>fresh_var\<close>, from the current value of \<open>i\<close>.\<close>

function fresh_var_from :: "string list \<Rightarrow> string \<Rightarrow> nat \<Rightarrow> string" where
  "fresh_var_from used base i =
     (let cand = base @ str_of_nat i in
      if cand \<notin> set used then cand else fresh_var_from used base (i + 1))"
  by pat_completeness auto
termination
  by (relation "measure (\<lambda>(used, base, i). card (taken_from used base i))")
     (auto intro: taken_from_decreases)

declare fresh_var_from.simps [simp del]

text \<open>\<open>fresh_var\<close> returns the name and leaves it added to \<open>used\<close>.\<close>

definition fresh_var :: "string list \<Rightarrow> string \<Rightarrow> string \<times> string list" where
  "fresh_var used base = (let cand = fresh_var_from used base 1 in (cand, set_add cand used))"

text \<open>
  The first pass.  \<open>term_var\<close> is a dictionary from a terminal to its nonterminal; the
  loop over the characters of a body of length at least two carries \<open>used\<close>,
  \<open>term_var\<close> and the list \<open>new_body\<close>.
\<close>

type_synonym lift_state = "string list \<times> (string \<times> string) list \<times> string list"

definition lift_char :: "char \<Rightarrow> lift_state \<Rightarrow> lift_state" where
  "lift_char ch = (\<lambda>(used, term_var, new_body).
     if is_terminal [ch] then
       (case map_of term_var [ch] of
          Some v \<Rightarrow> (used, term_var, new_body @ [v])
        | None \<Rightarrow>
            let candidate = str_upper [ch];
                (candidate, used) =
                   (if candidate \<in> set used \<or> length candidate \<noteq> 1 \<or> \<not> str_isupper candidate
                    then fresh_var used (''T'' @ [ch]) else (candidate, used));
                used = set_add candidate used
            in (used, term_var @ [([ch], candidate)], new_body @ [candidate]))
     else (used, term_var, new_body @ [[ch]]))"

type_synonym cnf1_state = "string list \<times> (string \<times> string) list \<times> productions"

definition cnf1_body_step :: "string \<Rightarrow> string \<Rightarrow> string \<Rightarrow> cnf1_state \<Rightarrow> cnf1_state" where
  "cnf1_body_step start A b = (\<lambda>(used, term_var, cnf1).
     if b = EPS \<and> A \<noteq> start then (used, term_var, cnf1)
     else if length b \<ge> 2 then
       (case fold lift_char b (used, term_var, []) of
          (used, term_var, new_body) \<Rightarrow>
            (used, term_var, dict_upd cnf1 A (set_add (concat new_body))))
     else (used, term_var, dict_upd cnf1 A (set_add b)))"

definition cnf1_pass :: "string \<Rightarrow> productions \<Rightarrow> cnf1_state \<Rightarrow> cnf1_state" where
  "cnf1_pass start prods = fold (\<lambda>(A, bodies). fold (cnf1_body_step start A) bodies) prods"

text \<open>The second pass: a body of length three or more becomes a chain.\<close>

type_synonym chain_state = "string list \<times> productions \<times> string"

definition chain_step :: "char \<Rightarrow> chain_state \<Rightarrow> chain_state" where
  "chain_step X = (\<lambda>(used, cnf2, prev_left).
     case fresh_var used ''Y'' of
       (Y, used) \<Rightarrow> (used, dict_setdefault_add cnf2 prev_left ([X] @ Y), Y))"

definition cnf2_body_step ::
  "string \<Rightarrow> string \<Rightarrow> string \<Rightarrow> string list \<times> productions \<Rightarrow> string list \<times> productions" where
  "cnf2_body_step start A b = (\<lambda>(used, cnf2).
     if b = EPS \<and> A = start then (used, dict_upd cnf2 A (set_add EPS))
     else if length b \<le> 2 then (used, dict_upd cnf2 A (set_add b))
     else
       (case fold chain_step (take (length b - 2) b) (used, cnf2, A) of
          (used, cnf2, prev_left) \<Rightarrow>
            (used, dict_setdefault_add cnf2 prev_left (drop (length b - 2) b))))"

definition to_cnf :: "string \<Rightarrow> productions \<Rightarrow> productions" where
  "to_cnf start prods =
     (case cnf1_pass start prods (keys prods, [], empty_like prods) of
        (used, term_var, cnf1) \<Rightarrow>
          let cnf1 = fold (\<lambda>(a, Va) c. dict_setdefault_add c Va a) term_var cnf1;
              cnf2 = empty_like cnf1;
              used = keys cnf1
          in snd (fold (\<lambda>(A, bodies). fold (cnf2_body_step start A) bodies) cnf1 (used, cnf2)))"

section \<open>The whole pipeline\<close>

text \<open>The four calls of \<open>main\<close>, on the grammar that the parser returned.\<close>

definition pipeline :: "bool \<Rightarrow> string \<Rightarrow> productions \<Rightarrow> productions" where
  "pipeline keep_start S G =
     (let G1 = eliminate_epsilon S G keep_start;
          G2a = eliminate_unit_productions S G1;
          G2b = remove_useless_symbols S G2a
      in to_cnf S G2b)"

section \<open>The stages on a store of objects\<close>

text \<open>
  Python sets and dictionaries are objects, and a stage could change the objects it is
  given.  Here the objects live in a store, at addresses; a dictionary holds for each
  key the address of a set.  The input dictionary and its sets are in the store, and so
  is every set and dictionary that a stage builds and returns or keeps in such a
  dictionary: each statement of the source that changes one of them is a write at its
  address, and each loop over one of them reads it from the store as it is when the
  loop starts.  The sets that a stage holds in a local variable only (\<open>nullable\<close>,
  \<open>generated\<close>, \<open>gen\<close>, \<open>reach\<close>, \<open>used\<close>) and the dictionaries \<open>unit\<close> and
  \<open>term_var\<close> are values, computed by the functions above from the dictionary that
  the store holds at that moment.
\<close>

datatype obj = SetObj "string list" | DictObj "(string \<times> nat) list"

type_synonym store = "obj list"

definition set_at :: "store \<Rightarrow> nat \<Rightarrow> string list" where
  "set_at h a = (if a < length h then (case h ! a of SetObj s \<Rightarrow> s | DictObj es \<Rightarrow> []) else [])"

definition dict_at :: "store \<Rightarrow> nat \<Rightarrow> (string \<times> nat) list" where
  "dict_at h d = (if d < length h then (case h ! d of SetObj s \<Rightarrow> [] | DictObj es \<Rightarrow> es) else [])"

definition view :: "store \<Rightarrow> nat \<Rightarrow> productions" where
  "view h d = map (\<lambda>(k, a). (k, set_at h a)) (dict_at h d)"

text \<open>\<open>set()\<close>, \<open>set(s)\<close> and \<open>{}\<close> allocate an object at the next free address.\<close>

definition new_set :: "string list \<Rightarrow> store \<Rightarrow> nat \<times> store" where
  "new_set s h = (length h, h @ [SetObj s])"

definition new_dict :: "store \<Rightarrow> nat \<times> store" where
  "new_dict h = (length h, h @ [DictObj []])"

text \<open>
  A method that changes the set at address \<open>a\<close>; the same for the set \<open>d[k]\<close>, for a
  key that \<open>d\<close> has; \<open>d[k] = a\<close>; \<open>d.setdefault(k, set()).add(x)\<close>;
  \<open>{A: set() for A in prods.keys()}\<close>.
\<close>

definition set_apply_at :: "(string list \<Rightarrow> string list) \<Rightarrow> nat \<Rightarrow> store \<Rightarrow> store" where
  "set_apply_at f a h = h[a := SetObj (f (set_at h a))]"

definition item_apply :: "nat \<Rightarrow> string \<Rightarrow> (string list \<Rightarrow> string list) \<Rightarrow> store \<Rightarrow> store" where
  "item_apply d k f h =
     (case map_of (dict_at h d) k of None \<Rightarrow> h | Some a \<Rightarrow> set_apply_at f a h)"

definition setitem :: "nat \<Rightarrow> string \<Rightarrow> nat \<Rightarrow> store \<Rightarrow> store" where
  "setitem d k a h =
     h[d := DictObj (let es = dict_at h d in
                     if k \<in> set (map fst es)
                     then map (\<lambda>(k', a'). if k' = k then (k', a) else (k', a')) es
                     else es @ [(k, a)])]"

definition setdefault_add :: "nat \<Rightarrow> string \<Rightarrow> string \<Rightarrow> store \<Rightarrow> store" where
  "setdefault_add d k x h =
     (if k \<in> set (map fst (dict_at h d)) then item_apply d k (set_add x) h
      else (case new_set [] h of (a, h) \<Rightarrow> item_apply d k (set_add x) (setitem d k a h)))"

definition empty_like_st :: "nat \<Rightarrow> store \<Rightarrow> nat \<times> store" where
  "empty_like_st p h =
     (case new_dict h of
        (d, h1) \<Rightarrow> (d, fold (\<lambda>A h. case new_set [] h of (a, h) \<Rightarrow> setitem d A a h)
                         (map fst (dict_at h p)) h1))"

definition epsilon_body_step_st ::
  "string \<Rightarrow> bool \<Rightarrow> string list \<Rightarrow> nat \<Rightarrow> string \<Rightarrow> string \<Rightarrow> store \<Rightarrow> store" where
  "epsilon_body_step_st start keep_start_epsilon nullable new_prods A b h =
     (if b = EPS then h
      else
        let generated = generated_bodies start keep_start_epsilon nullable A b in
        item_apply new_prods A (\<lambda>s. set_update s (if generated \<noteq> [] then generated else [b])) h)"

definition eliminate_epsilon_st :: "string \<Rightarrow> nat \<Rightarrow> bool \<Rightarrow> store \<Rightarrow> nat \<times> store" where
  "eliminate_epsilon_st start prods keep_start_epsilon h =
     (let nullable = find_nullable start (view h prods) in
      case empty_like_st prods h of
        (new_prods, h) \<Rightarrow>
          let h = fold (\<lambda>(A, bodies) h.
                          fold (epsilon_body_step_st start keep_start_epsilon nullable new_prods A)
                            (set_at h bodies) h)
                    (dict_at h prods) h;
              h = (if keep_start_epsilon \<and> start \<in> set nullable
                   then item_apply new_prods start (set_add EPS) h else h);
              h = fold (\<lambda>A h. if A \<noteq> start then item_apply new_prods A (set_discard EPS) h else h)
                    (map fst (dict_at h new_prods)) h
          in (new_prods, h))"

definition eliminate_unit_productions_st :: "string \<Rightarrow> nat \<Rightarrow> store \<Rightarrow> nat \<times> store" where
  "eliminate_unit_productions_st start prods h =
     (let nts = map fst (dict_at h prods);
          unit = unit_loop (view h prods) (unit_init nts)
      in case empty_like_st prods h of
           (new_prods, h) \<Rightarrow>
             (new_prods,
              fold (\<lambda>A h.
                      fold (\<lambda>B h.
                              fold (\<lambda>body h. if is_unit_body body then h
                                              else item_apply new_prods A (set_add body) h)
                                (dict_get (view h prods) B) h)
                        (unit A) h)
                nts h))"

definition kept_step_st :: "string list \<Rightarrow> nat \<Rightarrow> string \<Rightarrow> store \<Rightarrow> store" where
  "kept_step_st gen kept b h =
     (if list_all (\<lambda>ch. is_terminal [ch] \<or> [ch] \<in> set gen) b
      then set_apply_at (set_add b) kept h else h)"

definition prods_gen_step_st :: "string list \<Rightarrow> nat \<Rightarrow> string \<times> nat \<Rightarrow> store \<Rightarrow> store" where
  "prods_gen_step_st gen prods_gen = (\<lambda>(A, bodies) h.
     if A \<notin> set gen then h
     else (case new_set [] h of
             (kept, h) \<Rightarrow>
               setitem prods_gen A kept (fold (kept_step_st gen kept) (set_at h bodies) h)))"

definition prods_final_step_st :: "string list \<Rightarrow> nat \<Rightarrow> string \<times> nat \<Rightarrow> store \<Rightarrow> store" where
  "prods_final_step_st reach prods_final = (\<lambda>(A, bodies) h.
     if A \<in> set reach
     then (case new_set (set_at h bodies) h of (c, h) \<Rightarrow> setitem prods_final A c h)
     else h)"

definition remove_useless_symbols_st :: "string \<Rightarrow> nat \<Rightarrow> store \<Rightarrow> nat \<times> store" where
  "remove_useless_symbols_st start prods h =
     (let gen = generating_nonterminals (view h prods) in
      case new_dict h of
        (prods_gen, h) \<Rightarrow>
          let h = fold (prods_gen_step_st gen prods_gen) (dict_at h prods) h;
              reach = reachable_nonterminals start (view h prods_gen)
          in case new_dict h of
               (prods_final, h) \<Rightarrow>
                 let h = fold (prods_final_step_st reach prods_final) (dict_at h prods_gen) h
                 in (prods_final,
                     if start \<notin> set (map fst (dict_at h prods_final))
                     then (case new_set [] h of (c, h) \<Rightarrow> setitem prods_final start c h)
                     else h))"

type_synonym cnf1_state_st = "string list \<times> (string \<times> string) list \<times> store"

definition cnf1_body_step_st ::
  "string \<Rightarrow> nat \<Rightarrow> string \<Rightarrow> string \<Rightarrow> cnf1_state_st \<Rightarrow> cnf1_state_st" where
  "cnf1_body_step_st start cnf1 A b = (\<lambda>(used, term_var, h).
     if b = EPS \<and> A \<noteq> start then (used, term_var, h)
     else if length b \<ge> 2 then
       (case fold lift_char b (used, term_var, []) of
          (used, term_var, new_body) \<Rightarrow>
            (used, term_var, item_apply cnf1 A (set_add (concat new_body)) h))
     else (used, term_var, item_apply cnf1 A (set_add b) h))"

type_synonym chain_state_st = "string list \<times> store \<times> string"

definition chain_step_st :: "nat \<Rightarrow> char \<Rightarrow> chain_state_st \<Rightarrow> chain_state_st" where
  "chain_step_st cnf2 X = (\<lambda>(used, h, prev_left).
     case fresh_var used ''Y'' of
       (Y, used) \<Rightarrow> (used, setdefault_add cnf2 prev_left ([X] @ Y) h, Y))"

definition cnf2_body_step_st ::
  "string \<Rightarrow> nat \<Rightarrow> string \<Rightarrow> string \<Rightarrow> string list \<times> store \<Rightarrow> string list \<times> store" where
  "cnf2_body_step_st start cnf2 A b = (\<lambda>(used, h).
     if b = EPS \<and> A = start then (used, item_apply cnf2 A (set_add EPS) h)
     else if length b \<le> 2 then (used, item_apply cnf2 A (set_add b) h)
     else
       (case fold (chain_step_st cnf2) (take (length b - 2) b) (used, h, A) of
          (used, h, prev_left) \<Rightarrow>
            (used, setdefault_add cnf2 prev_left (drop (length b - 2) b) h)))"

definition to_cnf_st :: "string \<Rightarrow> nat \<Rightarrow> store \<Rightarrow> nat \<times> store" where
  "to_cnf_st start prods h =
     (case empty_like_st prods h of
        (cnf1, h) \<Rightarrow>
          (case fold (\<lambda>(A, bodies) st.
                        fold (cnf1_body_step_st start cnf1 A) (set_at (snd (snd st)) bodies) st)
                  (dict_at h prods) (map fst (dict_at h prods), [], h) of
             (used, term_var, h) \<Rightarrow>
               let h = fold (\<lambda>(a, Va) h. setdefault_add cnf1 Va a h) term_var h in
               case empty_like_st cnf1 h of
                 (cnf2, h) \<Rightarrow>
                   (cnf2,
                    snd (fold (\<lambda>(A, bodies) st.
                                 fold (cnf2_body_step_st start cnf2 A) (set_at (snd st) bodies) st)
                           (dict_at h cnf1) (map fst (dict_at h cnf1), h)))))"

text \<open>The grammar \<open>scenario_grammar\<close> in a store, the dictionary at address 3.\<close>

definition scenario_store :: store where
  "scenario_store = [SetObj [''AB'', EPS], SetObj [''aA'', EPS], SetObj [''bB'', EPS],
                 DictObj [(''S'', 0), (''A'', 1), (''B'', 2)]]"

section \<open>Notions of the specification\<close>

text \<open>
  The grammars that \<open>parse_grammar_file\<close> returns: the left-hand side of a line is
  one letter of \<open>[A-Z]\<close>, and a body is \<open>"\<epsilon>"\<close> or a non-empty string over
  \<open>VALID_BODY_CHARS\<close>; the keys of a dictionary differ from one another.
\<close>

definition VALID_BODY_CHARS :: string where
  "VALID_BODY_CHARS = ascii_lowercase @ ascii_digits @ ascii_uppercase"

definition valid_body :: "string \<Rightarrow> bool" where
  "valid_body b = (b = EPS \<or> (b \<noteq> [] \<and> list_all (\<lambda>ch. ch \<in> set VALID_BODY_CHARS) b))"

definition valid_lhs :: "string \<Rightarrow> bool" where
  "valid_lhs A = (length A = 1 \<and> list_all (\<lambda>ch. ch \<in> set ascii_uppercase) A)"

definition valid_prods :: "productions \<Rightarrow> bool" where
  "valid_prods prods =
     (distinct (keys prods) \<and>
      list_all (\<lambda>(A, bodies). valid_lhs A \<and> list_all valid_body bodies) prods)"

text \<open>
  Derivations.  A sentential form is a string of one-character symbols, as every stage
  reads it; a step replaces one symbol \<open>X\<close> by a body of the entry \<open>X\<close>, the body
  \<open>"\<epsilon>"\<close> standing for the empty string.  A word of the language is a string of
  terminals that the start symbol derives.
\<close>

definition body_string :: "string \<Rightarrow> string" where
  "body_string b = (if b = EPS then [] else b)"

inductive derives_step :: "productions \<Rightarrow> string \<Rightarrow> string \<Rightarrow> bool" for prods where
  derives_stepI: "(A, bodies) \<in> set prods \<Longrightarrow> b \<in> set bodies \<Longrightarrow> A = [X] \<Longrightarrow>
     derives_step prods (u @ X # v) (u @ body_string b @ v)"

definition derives :: "productions \<Rightarrow> string \<Rightarrow> string \<Rightarrow> bool" where
  "derives prods = rtranclp (derives_step prods)"

definition in_language :: "string \<Rightarrow> productions \<Rightarrow> string \<Rightarrow> bool" where
  "in_language start prods w = (derives prods start w \<and> list_all (\<lambda>ch. is_terminal [ch]) w)"

text \<open>
  A nonterminal is reachable when the start symbol derives a sentential form in which
  it occurs, and generating when it derives a string of terminals.
\<close>

definition reachable_in :: "string \<Rightarrow> productions \<Rightarrow> string \<Rightarrow> bool" where
  "reachable_in start prods A = (\<exists>u v. derives prods start (u @ A @ v))"

definition generating_in :: "productions \<Rightarrow> string \<Rightarrow> bool" where
  "generating_in prods A = (\<exists>w. derives prods A w \<and> list_all (\<lambda>ch. is_terminal [ch]) w)"

text \<open>
  The shape of a body in Chomsky normal form: one terminal, or two nonterminals, or
  \<open>"\<epsilon>"\<close> at the start symbol.  A nonterminal is read here as generously as the
  returned grammar allows: one upper-case letter, or any name that has an entry.
\<close>

definition is_symbol_name :: "productions \<Rightarrow> string \<Rightarrow> bool" where
  "is_symbol_name prods X = (X \<in> set (keys prods) \<or> (length X = 1 \<and> is_nonterminal X))"

definition two_nonterminals :: "productions \<Rightarrow> string \<Rightarrow> bool" where
  "two_nonterminals prods b =
     list_ex (\<lambda>i. is_symbol_name prods (take i b) \<and> is_symbol_name prods (drop i b))
       [0 ..< Suc (length b)]"

definition cnf_body :: "string \<Rightarrow> productions \<Rightarrow> string \<Rightarrow> string \<Rightarrow> bool" where
  "cnf_body start prods A b =
     ((length b = 1 \<and> is_terminal b) \<or> two_nonterminals prods b \<or> (b = EPS \<and> A = start))"

definition clash_grammar :: productions where
  "clash_grammar = [(''S'', [''aA'', ''a'']), (''A'', [''a''])]"

definition triple_grammar :: productions where
  "triple_grammar = [(''S'', [''ABC'']), (''A'', [''a'']), (''B'', [''b'']), (''C'', [''c''])]"

text \<open>
  The unit closure in the words of the specification: \<open>A\<close> derives \<open>B\<close> by a chain
  of zero or more unit productions, and the bodies that the specification gives to
  \<open>A\<close> after the elimination.
\<close>

inductive unit_derives :: "productions \<Rightarrow> string \<Rightarrow> string \<Rightarrow> bool" for prods where
  unit_refl: "unit_derives prods A A"
| unit_step: "unit_derives prods A B \<Longrightarrow> C \<in> set (dict_get prods B) \<Longrightarrow> is_unit_body C \<Longrightarrow>
     unit_derives prods A C"

definition spec_unit_bodies :: "productions \<Rightarrow> string \<Rightarrow> string set" where
  "spec_unit_bodies prods A =
     {b. \<exists>B. unit_derives prods A B \<and> b \<in> set (dict_get prods B) \<and> \<not> is_unit_body b}"

definition chain_grammar :: productions where
  "chain_grammar = [(''A'', [''B'']), (''B'', [''C'']), (''C'', [''D'']), (''D'', [''d''])]"

text \<open>The grammar \<open>S \<rightarrow> AB | \<epsilon>\<close>, \<open>A \<rightarrow> aA | \<epsilon>\<close>, \<open>B \<rightarrow> bB | \<epsilon>\<close>.\<close>

definition scenario_grammar :: productions where
  "scenario_grammar = [(''S'', [''AB'', EPS]), (''A'', [''aA'', EPS]), (''B'', [''bB'', EPS])]"

text \<open>A start symbol that generates nothing, and a grammar with useless symbols.\<close>

definition loop_grammar :: productions where
  "loop_grammar = [(''S'', [''SS''])]"

definition useless_grammar :: productions where
  "useless_grammar =
     [(''S'', [''aA'', ''bD'']), (''A'', [''a'']), (''D'', [''Dd'']), (''C'', [''c''])]"

text \<open>
  The reference \<open>p\<close> is a dictionary of the store \<open>h\<close> whose sets are in \<open>h\<close>.
\<close>

definition in_store :: "store \<Rightarrow> nat \<Rightarrow> bool" where
  "in_store h p = (p < length h \<and> list_all (\<lambda>(k, a). a < length h) (dict_at h p))"

section \<open>Facts about characters\<close>

lemma upper_not_lower: "ch_isupper c \<Longrightarrow> \<not> ch_islower c"
  by (auto simp: ch_isupper_def ch_islower_def ascii_uppercase_def ascii_lowercase_def
      eps_ch_def cap_eps_ch_def)

lemma upper_not_digit: "ch_isupper c \<Longrightarrow> \<not> ch_isdigit c"
  by (auto simp: ch_isupper_def ch_isdigit_def ascii_uppercase_def ascii_digits_def
      cap_eps_ch_def)

lemma is_nonterminal_single [simp]: "is_nonterminal [c] = ch_isupper c"
  by (auto simp: is_nonterminal_def str_isupper_def dest: upper_not_lower)

lemma is_terminal_single [simp]: "is_terminal [c] = (ch_islower c \<or> ch_isdigit c)"
  by (auto simp: is_terminal_def str_islower_def str_isdigit_def dest: upper_not_lower)

lemma valid_char_cases:
  "c \<in> set VALID_BODY_CHARS \<Longrightarrow> ch_islower c \<or> ch_isdigit c \<or> ch_isupper c"
  by (auto simp: VALID_BODY_CHARS_def ch_islower_def ch_isdigit_def ch_isupper_def)

lemma eps_not_valid_char: "eps_ch \<notin> set VALID_BODY_CHARS"
  by (simp add: VALID_BODY_CHARS_def eps_ch_def ascii_lowercase_def ascii_digits_def
      ascii_uppercase_def)

section \<open>Dictionary lemmas\<close>

lemma map_of_dict_upd:
  "map_of (dict_upd d k f) x = (if x = k then map_option f (map_of d k) else map_of d x)"
  by (induction d) (auto simp: dict_upd_def)

lemma fun_upd_dict_get:
  "A \<in> set (keys L) \<Longrightarrow> (dict_get L)(A := v) = dict_get (dict_upd L A (\<lambda>_. v))"
  by (auto simp: fun_eq_iff dict_get_def map_of_dict_upd keys_def split: option.splits
      dest: weak_map_of_SomeI map_of_SomeD)

section \<open>Derivations and the nullable set\<close>

lemma derives_refl: "derives P u u"
  by (simp add: derives_def)

lemma derives_trans: "derives P u v \<Longrightarrow> derives P v w \<Longrightarrow> derives P u w"
  by (simp add: derives_def)

lemma derives_step_context: "derives_step P x y \<Longrightarrow> derives_step P (l @ x @ r) (l @ y @ r)"
proof (induction rule: derives_step.induct)
  case (derives_stepI A bodies b X u v)
  from derives_step.intros [OF this, of "l @ u" "v @ r"] show ?case by simp
qed

lemma derives_context: "derives P x y \<Longrightarrow> derives P (l @ x @ r) (l @ y @ r)"
  unfolding derives_def
proof (induction rule: rtranclp_induct)
  case base
  then show ?case by simp
next
  case (step y z)
  from derives_step_context [OF step.hyps(2)] step.IH show ?case
    by (meson rtranclp.rtrancl_into_rtrancl)
qed

lemma derives_append: "derives P x x' \<Longrightarrow> derives P y y' \<Longrightarrow> derives P (x @ y) (x' @ y')"
proof -
  assume x: "derives P x x'" and y: "derives P y y'"
  from derives_context [OF x, of "[]" y] have "derives P (x @ y) (x' @ y)" by simp
  moreover from derives_context [OF y, of x' "[]"] have "derives P (x' @ y) (x' @ y')" by simp
  ultimately show ?thesis by (rule derives_trans)
qed

lemma derives_production:
  assumes "(A, bodies) \<in> set P" "b \<in> set bodies" "A = [X]"
  shows "derives P [X] (body_string b)"
proof -
  from derives_step.intros [OF assms, of "[]" "[]"] show ?thesis
    by (simp add: derives_def)
qed

lemma derives_all_empty: "(\<And>ch. ch \<in> set b \<Longrightarrow> derives P [ch] []) \<Longrightarrow> derives P b []"
proof (induction b)
  case Nil
  then show ?case by (simp add: derives_refl)
next
  case (Cons c b)
  have "derives P ([c] @ b) ([] @ [])"
    by (rule derives_append) (simp_all add: Cons)
  then show ?case by simp
qed

text \<open>Every member of the computed set derives the empty string.\<close>

definition nullable_sound :: "productions \<Rightarrow> string list \<Rightarrow> bool" where
  "nullable_sound P N = (\<forall>X. [X] \<in> set N \<longrightarrow> derives P [X] [])"

lemma valid_prods_body_char:
  "valid_prods P \<Longrightarrow> (A, bodies) \<in> set P \<Longrightarrow> b \<in> set bodies \<Longrightarrow> ch \<in> set b \<Longrightarrow>
   is_terminal [ch] \<or> is_nonterminal [ch]"
proof -
  assume v: "valid_prods P" and m: "(A, bodies) \<in> set P" "b \<in> set bodies" "ch \<in> set b"
  from v m have "valid_body b" by (auto simp: valid_prods_def list_all_iff)
  with m(3) have "ch = eps_ch \<or> ch \<in> set VALID_BODY_CHARS"
    by (auto simp: valid_body_def EPS_def list_all_iff)
  then show ?thesis
    using valid_char_cases [of ch] by (auto simp: ch_islower_def)
qed

lemma valid_prods_key:
  "valid_prods P \<Longrightarrow> (A, bodies) \<in> set P \<Longrightarrow> \<exists>X. A = [X] \<and> ch_isupper X"
  by (cases A) (auto simp: valid_prods_def list_all_iff valid_lhs_def ch_isupper_def)

lemma nullable_body_ok_iff:
  "nullable_body_ok N b \<longleftrightarrow>
   (\<forall>ch \<in> set b. \<not> is_terminal [ch] \<and> (is_nonterminal [ch] \<longrightarrow> [ch] \<in> set N))"
  by (induction b) auto

lemma nullable_bodies_iff:
  "nullable_bodies N bodies \<longleftrightarrow> (\<exists>b \<in> set bodies. b = EPS \<or> nullable_body_ok N b)"
  by (induction bodies) auto

lemma nullable_entry_sound:
  assumes v: "valid_prods P" and s: "nullable_sound P N"
    and m: "(A, bodies) \<in> set P" and nb: "nullable_bodies N bodies"
  shows "nullable_sound P (set_add A N)"
proof -
  from valid_prods_key [OF v m] obtain X where X: "A = [X]" by blast
  from nb obtain b where b: "b \<in> set bodies" "b = EPS \<or> nullable_body_ok N b"
    by (auto simp: nullable_bodies_iff)
  have d: "derives P [X] (body_string b)" by (rule derives_production [OF m b(1) X])
  have "derives P (body_string b) []"
  proof (cases "b = EPS")
    case True
    then show ?thesis by (simp add: body_string_def derives_refl)
  next
    case False
    with b have ok: "nullable_body_ok N b" by simp
    have "derives P b []"
    proof (rule derives_all_empty)
      fix ch assume ch: "ch \<in> set b"
      with ok have "\<not> is_terminal [ch]" "is_nonterminal [ch] \<longrightarrow> [ch] \<in> set N"
        by (auto simp: nullable_body_ok_iff)
      with valid_prods_body_char [OF v m b(1) ch] have "[ch] \<in> set N" by blast
      with s show "derives P [ch] []" by (simp add: nullable_sound_def)
    qed
    with False show ?thesis by (simp add: body_string_def)
  qed
  with d have "derives P [X] []" by (rule derives_trans)
  with s X show ?thesis by (auto simp: nullable_sound_def)
qed

lemma nullable_pass_sound:
  "valid_prods P \<Longrightarrow> set Q \<subseteq> set P \<Longrightarrow> nullable_sound P N \<Longrightarrow>
   nullable_pass Q N c = (N', c') \<Longrightarrow> nullable_sound P N'"
proof (induction Q N c rule: nullable_pass.induct)
  case (1 nullable changed)
  then show ?case by simp
next
  case (2 A bodies rest nullable changed)
  from "2.prems"(2) have m: "(A, bodies) \<in> set P" and r: "set rest \<subseteq> set P" by auto
  show ?case
  proof (cases "A \<in> set nullable")
    case True
    with 2 r show ?thesis by simp
  next
    case False
    show ?thesis
    proof (cases "nullable_bodies nullable bodies")
      case True
      have "nullable_sound P (set_add A nullable)"
        by (rule nullable_entry_sound [OF "2.prems"(1) "2.prems"(3) m True])
      with 2 False True r show ?thesis by simp
    next
      case nb: False
      with 2 False r show ?thesis by simp
    qed
  qed
qed

lemma nullable_loop_sound:
  "valid_prods P \<Longrightarrow> nullable_sound P N \<Longrightarrow> nullable_sound P (nullable_loop P N)"
proof (induction P N rule: nullable_loop.induct)
  case (1 prods nullable)
  obtain n' c' where p: "nullable_pass prods nullable False = (n', c')"
    by (cases "nullable_pass prods nullable False")
  have s: "nullable_sound prods n'"
    by (rule nullable_pass_sound [OF "1.prems"(1) subset_refl "1.prems"(2) p])
  show ?case
  proof (cases c')
    case True
    with "1.IH" [OF p [symmetric] True "1.prems"(1) s] p show ?thesis
      by (simp add: nullable_loop.simps [of prods nullable])
  next
    case False
    with s p show ?thesis by (simp add: nullable_loop.simps [of prods nullable])
  qed
qed

lemma nullable_seed_fold_sound:
  "valid_prods P \<Longrightarrow> set Q \<subseteq> set P \<Longrightarrow> nullable_sound P N \<Longrightarrow>
   nullable_sound P
     (fold (\<lambda>(A, bodies) nullable. if EPS \<in> set bodies then set_add A nullable else nullable) Q N)"
proof (induction Q arbitrary: N)
  case Nil
  then show ?case by simp
next
  case (Cons e Q)
  obtain A bodies where e: "e = (A, bodies)" by (cases e)
  with Cons.prems have m: "(A, bodies) \<in> set P" and r: "set Q \<subseteq> set P" by auto
  have "nullable_sound P (if EPS \<in> set bodies then set_add A N else N)"
  proof (cases "EPS \<in> set bodies")
    case True
    then have "nullable_bodies N bodies" by (auto simp: nullable_bodies_iff)
    from nullable_entry_sound [OF Cons.prems(1) Cons.prems(3) m this] True show ?thesis by simp
  next
    case False
    with Cons.prems show ?thesis by simp
  qed
  from Cons.IH [OF Cons.prems(1) r this] e show ?case by simp
qed

lemma find_nullable_sound:
  "valid_prods P \<Longrightarrow> nullable_sound P (find_nullable start P)"
  unfolding find_nullable_def nullable_seed_def
  by (intro nullable_loop_sound nullable_seed_fold_sound) (simp_all add: nullable_sound_def)

text \<open>
  When the loop stops, the set is closed under the rule that adds a nonterminal, and
  holds every symbol of a string that derives the empty string.
\<close>

definition nullable_closed :: "productions \<Rightarrow> string list \<Rightarrow> bool" where
  "nullable_closed P N = (\<forall>(A, bodies) \<in> set P. nullable_bodies N bodies \<longrightarrow> A \<in> set N)"

lemma nullable_pass_flag: "nullable_pass Q N True = (N', c') \<Longrightarrow> c'"
  by (induction Q N True arbitrary: rule: nullable_pass.induct) (auto split: if_splits)

lemma nullable_pass_unchanged:
  "nullable_pass Q N c = (N', False) \<Longrightarrow>
   N' = N \<and> (\<forall>(A, bodies) \<in> set Q. nullable_bodies N bodies \<longrightarrow> A \<in> set N)"
proof (induction Q N c rule: nullable_pass.induct)
  case (1 nullable changed)
  then show ?case by simp
next
  case (2 A bodies rest nullable changed)
  show ?case
  proof (cases "A \<notin> set nullable \<and> nullable_bodies nullable bodies")
    case True
    with "2.prems" have "nullable_pass rest (set_add A nullable) True = (N', False)" by simp
    from nullable_pass_flag [OF this] show ?thesis by simp
  next
    case False
    with 2 show ?thesis by (auto split: if_splits)
  qed
qed

lemma nullable_loop_closed: "nullable_closed P (nullable_loop P N)"
proof (induction P N rule: nullable_loop.induct)
  case (1 prods nullable)
  obtain n' c' where p: "nullable_pass prods nullable False = (n', c')"
    by (cases "nullable_pass prods nullable False")
  show ?case
  proof (cases c')
    case True
    with "1.IH" [OF p [symmetric] True] p show ?thesis
      by (simp add: nullable_loop.simps [of prods nullable])
  next
    case False
    with p nullable_pass_unchanged [of prods nullable False n'] show ?thesis
      by (simp add: nullable_loop.simps [of prods nullable] nullable_closed_def)
  qed
qed

lemma nullable_loop_keys:
  "set N \<subseteq> set (keys P) \<Longrightarrow> set (nullable_loop P N) \<subseteq> set (keys P)"
proof (induction P N rule: nullable_loop.induct)
  case (1 prods nullable)
  obtain n' c' where p: "nullable_pass prods nullable False = (n', c')"
    by (cases "nullable_pass prods nullable False")
  from nullable_pass_keys [OF p] "1.prems" have k: "set n' \<subseteq> set (keys prods)" by auto
  show ?case
  proof (cases c')
    case True
    with "1.IH" [OF p [symmetric] True k] p show ?thesis
      by (simp add: nullable_loop.simps [of prods nullable])
  next
    case False
    with p k show ?thesis by (simp add: nullable_loop.simps [of prods nullable])
  qed
qed

lemma nullable_seed_fold_keys:
  "set N \<subseteq> S \<Longrightarrow> set (keys Q) \<subseteq> S \<Longrightarrow>
   set (fold (\<lambda>(A, bodies) nullable. if EPS \<in> set bodies then set_add A nullable else nullable) Q N)
     \<subseteq> S"
proof (induction Q arbitrary: N)
  case Nil
  then show ?case by simp
next
  case (Cons e Q)
  obtain A bodies where e: "e = (A, bodies)" by (cases e)
  with Cons.prems have "set (if EPS \<in> set bodies then set_add A N else N) \<subseteq> S"
    and "set (keys Q) \<subseteq> S" by (auto simp: keys_def)
  from Cons.IH [OF this] e show ?case by simp
qed

lemma find_nullable_keys: "set (find_nullable start P) \<subseteq> set (keys P)"
  unfolding find_nullable_def nullable_seed_def
  by (intro nullable_loop_keys nullable_seed_fold_keys) simp_all

lemma find_nullable_closed: "nullable_closed P (find_nullable start P)"
  unfolding find_nullable_def by (rule nullable_loop_closed)

lemma derives_empty_nullable:
  assumes v: "valid_prods P" and c: "nullable_closed P N" and k: "set N \<subseteq> set (keys P)"
  shows "derives P x [] \<Longrightarrow> ch \<in> set x \<Longrightarrow> [ch] \<in> set N"
  unfolding derives_def
proof (induction arbitrary: ch rule: converse_rtranclp_induct)
  case base
  then show ?case by simp
next
  case (step y z)
  from step.hyps(1) show ?case
  proof (cases rule: derives_step.cases)
    case (derives_stepI A bodies b X u w)
    have rest: "\<And>c. c \<in> set u \<union> set (body_string b) \<union> set w \<Longrightarrow> [c] \<in> set N"
      using step.IH derives_stepI(2) by auto
    have "nullable_bodies N bodies"
    proof (cases "b = EPS")
      case True
      with derives_stepI(4) show ?thesis by (auto simp: nullable_bodies_iff)
    next
      case False
      have "nullable_body_ok N b"
        unfolding nullable_body_ok_iff
      proof (intro ballI conjI impI)
        fix c assume cb: "c \<in> set b"
        with False rest have cn: "[c] \<in> set N" by (simp add: body_string_def)
        with k obtain bs where "([c], bs) \<in> set P" by (auto simp: keys_def)
        from valid_prods_key [OF v this] have "ch_isupper c" by simp
        then show "\<not> is_terminal [c]" by (auto dest: upper_not_lower upper_not_digit)
        from cn show "[c] \<in> set N" .
      qed
      with derives_stepI(4) show ?thesis by (auto simp: nullable_bodies_iff)
    qed
    with c derives_stepI(3,5) have "[X] \<in> set N" by (auto simp: nullable_closed_def)
    with rest step.prems derives_stepI(1) show ?thesis by auto
  qed
qed

lemma find_nullable_correct:
  assumes "valid_prods P"
  shows "[X] \<in> set (find_nullable start P) \<longleftrightarrow> derives P [X] []"
proof
  assume "[X] \<in> set (find_nullable start P)"
  with find_nullable_sound [OF assms, of start] show "derives P [X] []"
    by (simp add: nullable_sound_def)
next
  assume "derives P [X] []"
  from derives_empty_nullable [OF assms find_nullable_closed find_nullable_keys this, of X]
  show "[X] \<in> set (find_nullable start P)" by simp
qed

section \<open>The bodies that the elimination of empty productions returns\<close>

lemma keys_dict_upd [simp]: "keys (dict_upd d k f) = keys d"
  by (induction d) (auto simp: dict_upd_def keys_def)

lemma map_of_not_key: "A \<notin> set (keys d) \<Longrightarrow> map_of d A = None"
  by (simp add: map_of_eq_None_iff keys_def)

lemma map_of_key: "A \<in> set (keys d) \<Longrightarrow> \<exists>v. map_of d A = Some v"
  by (cases "map_of d A") (auto simp: map_of_eq_None_iff keys_def)

lemma dict_get_not_key: "A \<notin> set (keys d) \<Longrightarrow> dict_get d A = []"
  by (simp add: dict_get_def map_of_not_key)

lemma dict_get_dict_upd:
  "dict_get (dict_upd d k f) x =
     (if x = k \<and> k \<in> set (keys d) then f (dict_get d k) else dict_get d x)"
proof (cases "k \<in> set (keys d)")
  case True
  from map_of_key [OF this] show ?thesis
    by (auto simp: dict_get_def map_of_dict_upd True)
next
  case False
  from map_of_not_key [OF this] show ?thesis
    by (auto simp: dict_get_def map_of_dict_upd False)
qed

lemma fold_invariant:
  assumes "I s" and "\<And>x s. x \<in> set xs \<Longrightarrow> I s \<Longrightarrow> I (f x s)"
  shows "I (fold f xs s)"
  using assms by (induction xs arbitrary: s) auto

lemma set_set_discard [simp]: "set (set_discard x xs) = set xs - {x}"
  by (auto simp: set_discard_def)

lemma keys_empty_like [simp]: "keys (empty_like d) = keys d"
  by (simp add: empty_like_def keys_def comp_def)

lemma dict_get_empty_like [simp]: "dict_get (empty_like d) A = []"
  by (induction d) (auto simp: empty_like_def keys_def dict_get_def)

text \<open>The candidates of the loop over \<open>mask\<close>.\<close>

lemma mask_candidate_subset: "set (mask_candidate positions b msk) \<subseteq> set b"
  by (auto simp: mask_candidate_def in_set_enumerate_eq)

lemma mask_candidate_empty:
  assumes "mask_candidate (nullable_positions N b) b msk = []" and "ch \<in> set b"
  shows "is_nonterminal [ch] \<and> [ch] \<in> set N"
proof -
  from assms(2) obtain i where i: "i < length b" "b ! i = ch" by (auto simp: in_set_conv_nth)
  then have m: "(i, ch) \<in> set (enumerate 0 b)" by (simp add: in_set_enumerate_eq)
  from assms(1) have "\<forall>p \<in> set (enumerate 0 b). \<not> (case p of (i, ch) \<Rightarrow>
      \<not> (i \<in> set (nullable_positions N b) \<and>
         (msk div 2 ^ list_index (nullable_positions N b) i) mod 2 = 1))"
    unfolding mask_candidate_def by (simp add: filter_empty_conv)
  with m have "i \<in> set (nullable_positions N b)" by auto
  then obtain ch' where "(i, ch') \<in> set (enumerate 0 b)" "is_nonterminal [ch'] \<and> [ch'] \<in> set N"
    by (auto simp: nullable_positions_def)
  with i show ?thesis by (simp add: in_set_enumerate_eq)
qed

lemma generated_fold_cases:
  "x \<in> set (fold (generated_step start keep A positions b) ms g) \<Longrightarrow>
   x \<in> set g \<or>
   (x = EPS \<and> A = start \<and> keep \<and> (\<exists>m. mask_candidate positions b m = [])) \<or>
   (x \<noteq> [] \<and> (\<exists>m. x = mask_candidate positions b m))"
proof (induction ms arbitrary: g)
  case Nil
  then show ?case by simp
next
  case (Cons m ms)
  from Cons.prems have "x \<in> set (fold (generated_step start keep A positions b) ms
     (generated_step start keep A positions b m g))" by simp
  from Cons.IH [OF this] show ?case
    by (auto simp: generated_step_def Let_def split: if_splits)
qed

lemma generated_bodies_cases:
  "x \<in> set (generated_bodies start keep N A b) \<Longrightarrow>
   (x = EPS \<and> A = start \<and> keep \<and> (\<exists>m. mask_candidate (nullable_positions N b) b m = [])) \<or>
   (x \<noteq> [] \<and> (\<exists>m. x = mask_candidate (nullable_positions N b) b m))"
  unfolding generated_bodies_def Let_def by (drule generated_fold_cases) simp

lemma valid_prods_body:
  assumes "valid_prods P" "(A, bodies) \<in> set P" "b \<in> set bodies" "b \<noteq> EPS"
  shows "b \<noteq> [] \<and> eps_ch \<notin> set b"
proof -
  from assms(1-3) have "valid_body b" by (auto simp: valid_prods_def list_all_iff)
  with assms(4) have "b \<noteq> []" "\<forall>ch \<in> set b. ch \<in> set VALID_BODY_CHARS"
    by (auto simp: valid_body_def list_all_iff)
  with eps_not_valid_char show ?thesis by blast
qed

definition eps_ok :: "string \<Rightarrow> bool \<Rightarrow> string list \<Rightarrow> productions \<Rightarrow> bool" where
  "eps_ok start keep N np =
     (\<forall>A x. x \<in> set (dict_get np A) \<longrightarrow> x \<noteq> [] \<and> (x = EPS \<longrightarrow> A = start \<and> keep \<and> start \<in> set N))"

lemma epsilon_body_step_ok:
  assumes v: "valid_prods P" and c: "nullable_closed P N"
    and m: "(A, bodies) \<in> set P" and b: "b \<in> set bodies"
    and ok: "eps_ok start keep N np"
  shows "eps_ok start keep N (epsilon_body_step start keep N A b np)"
proof (cases "b = EPS")
  case True
  with ok show ?thesis by (simp add: epsilon_body_step_def)
next
  case False
  from valid_prods_body [OF v m b False] have bne: "b \<noteq> []" and be: "eps_ch \<notin> set b" by auto
  define X where "X = (if generated_bodies start keep N A b \<noteq> []
     then generated_bodies start keep N A b else [b])"
  have X: "x \<noteq> [] \<and> (x = EPS \<longrightarrow> A = start \<and> keep \<and> start \<in> set N)" if "x \<in> set X" for x
  proof (cases "x = b")
    case True
    with bne False show ?thesis by simp
  next
    case xb: False
    with that have "x \<in> set (generated_bodies start keep N A b)"
      by (auto simp: X_def split: if_splits)
    from generated_bodies_cases [OF this] show ?thesis
    proof (elim disjE conjE exE)
      fix m assume e: "x = EPS" "A = start" "keep"
        and "mask_candidate (nullable_positions N b) b m = []"
      from mask_candidate_empty [OF this(4)] have "nullable_body_ok N b"
        by (auto simp: nullable_body_ok_iff dest: upper_not_lower upper_not_digit)
      with b have "nullable_bodies N bodies" by (auto simp: nullable_bodies_iff)
      with c m have "A \<in> set N" by (auto simp: nullable_closed_def)
      with e show ?thesis by (simp add: EPS_def)
    next
      fix m assume ne: "x \<noteq> []" and "x = mask_candidate (nullable_positions N b) b m"
      with mask_candidate_subset [of "nullable_positions N b" b m] be have "eps_ch \<notin> set x" by auto
      then have "x \<noteq> EPS" by (auto simp: EPS_def)
      with ne show ?thesis by simp
    qed
  qed
  have "epsilon_body_step start keep N A b np = dict_upd np A (\<lambda>s. set_update s X)"
    using False by (simp add: epsilon_body_step_def X_def Let_def)
  with ok X show ?thesis
    unfolding eps_ok_def by (auto simp: dict_get_dict_upd split: if_splits)
qed

lemma epsilon_main_loop_ok:
  assumes v: "valid_prods P" and c: "nullable_closed P N" and ok: "eps_ok start keep N np"
  shows "eps_ok start keep N (epsilon_main_loop start keep N P np)"
  unfolding epsilon_main_loop_def
proof (rule fold_invariant [where I = "eps_ok start keep N", OF ok])
  fix e s assume e: "e \<in> set P" and s: "eps_ok start keep N s"
  obtain A bodies where ab: "e = (A, bodies)" by (cases e)
  have "eps_ok start keep N (fold (epsilon_body_step start keep N A) bodies s)"
  proof (rule fold_invariant [where I = "eps_ok start keep N", OF s])
    fix b t assume "b \<in> set bodies" "eps_ok start keep N t"
    with e ab show "eps_ok start keep N (epsilon_body_step start keep N A b t)"
      by (intro epsilon_body_step_ok [OF v c]) auto
  qed
  with ab show "eps_ok start keep N
     ((case e of (A, bodies) \<Rightarrow> fold (epsilon_body_step start keep N A) bodies) s)" by simp
qed

lemma keys_epsilon_body_step [simp]: "keys (epsilon_body_step start keep N A b np) = keys np"
  by (simp add: epsilon_body_step_def Let_def)

lemma keys_epsilon_main_loop [simp]: "keys (epsilon_main_loop start keep N P np) = keys np"
proof -
  have "keys (fold (epsilon_body_step start keep N A) bodies s) = keys s" for A bodies s
    by (induction bodies arbitrary: s) simp_all
  then have "keys (fold (\<lambda>(A, bodies) np. fold (epsilon_body_step start keep N A) bodies np) Q s)
     = keys s" for Q s
    by (induction Q arbitrary: s) (simp_all add: case_prod_beta)
  then show ?thesis by (simp add: epsilon_main_loop_def)
qed

lemma discard_fold:
  "set (dict_get (fold (\<lambda>A np. if A \<noteq> start then dict_upd np A (set_discard EPS) else np) ks np) X)
   = (if X \<noteq> start \<and> X \<in> set ks \<and> X \<in> set (keys np)
      then set (dict_get np X) - {EPS} else set (dict_get np X))"
proof (induction ks arbitrary: np)
  case Nil
  then show ?case by simp
next
  case (Cons A ks)
  show ?case
    by (simp add: Cons.IH dict_get_dict_upd) auto
qed

lemma eliminate_epsilon_bodies:
  "set (dict_get (eliminate_epsilon start P keep) A) =
     (let N = find_nullable start P;
          np1 = epsilon_main_loop start keep N P (empty_like P)
      in if A = start
         then (if keep \<and> start \<in> set N then insert EPS (set (dict_get np1 start))
               else set (dict_get np1 start))
         else set (dict_get np1 A) - {EPS})"
proof -
  define N where "N = find_nullable start P"
  define np1 where "np1 = epsilon_main_loop start keep N P (empty_like P)"
  define np2 where "np2 = (if keep \<and> start \<in> set N then dict_upd np1 start (set_add EPS) else np1)"
  have k1: "keys np1 = keys P" by (simp add: np1_def)
  have k2: "keys np2 = keys P" by (simp add: np2_def k1)
  have sk: "start \<in> set N \<Longrightarrow> start \<in> set (keys P)"
    using find_nullable_keys [of start P] by (auto simp: N_def)
  have out: "eliminate_epsilon start P keep =
     fold (\<lambda>A np. if A \<noteq> start then dict_upd np A (set_discard EPS) else np) (keys np2) np2"
    by (simp add: eliminate_epsilon_def Let_def N_def np1_def np2_def)
  have "set (dict_get (eliminate_epsilon start P keep) A) =
     (if A \<noteq> start \<and> A \<in> set (keys P) then set (dict_get np2 A) - {EPS} else set (dict_get np2 A))"
    unfolding out discard_fold by (simp add: k2)
  also have "\<dots> = (if A = start
         then (if keep \<and> start \<in> set N then insert EPS (set (dict_get np1 start))
               else set (dict_get np1 start))
         else set (dict_get np1 A) - {EPS})"
    using sk by (auto simp: np2_def dict_get_dict_upd k1 dict_get_not_key)
  finally show ?thesis by (simp add: Let_def N_def np1_def)
qed

lemma eliminate_epsilon_ok:
  assumes v: "valid_prods P"
  shows "eps_ok start keep (find_nullable start P)
     (epsilon_main_loop start keep (find_nullable start P) P (empty_like P))"
  by (rule epsilon_main_loop_ok [OF v find_nullable_closed]) (simp add: eps_ok_def)

lemma eliminate_epsilon_eps_iff:
  assumes v: "valid_prods P"
  shows "EPS \<in> set (dict_get (eliminate_epsilon start P keep) A) \<longleftrightarrow>
     A = start \<and> keep \<and> start \<in> set (find_nullable start P)"
proof -
  define np1 where "np1 = epsilon_main_loop start keep (find_nullable start P) P (empty_like P)"
  from eliminate_epsilon_ok [OF v, of start keep]
  have "EPS \<in> set (dict_get np1 B) \<Longrightarrow> B = start \<and> keep \<and> start \<in> set (find_nullable start P)" for B
    unfolding eps_ok_def np1_def by blast
  then show ?thesis
    unfolding eliminate_epsilon_bodies Let_def np1_def [symmetric] by auto
qed

lemma eliminate_epsilon_no_empty:
  assumes v: "valid_prods P"
  shows "[] \<notin> set (dict_get (eliminate_epsilon start P keep) A)"
proof -
  define np1 where "np1 = epsilon_main_loop start keep (find_nullable start P) P (empty_like P)"
  from eliminate_epsilon_ok [OF v, of start keep]
  have "[] \<notin> set (dict_get np1 B)" for B
    unfolding eps_ok_def np1_def by blast
  then show ?thesis
    unfolding eliminate_epsilon_bodies Let_def np1_def [symmetric] by (auto simp: EPS_def)
qed

section \<open>The entries that the removal of useless symbols keeps\<close>

lemma keys_Nil [simp]: "keys [] = []"
  by (simp add: keys_def)

lemma keys_Cons [simp]: "keys ((A, bodies) # d) = A # keys d"
  by (simp add: keys_def)

lemma keys_append [simp]: "keys (d @ e) = keys d @ keys e"
  by (simp add: keys_def)

lemma dict_get_Nil [simp]: "dict_get [] X = []"
  by (simp add: dict_get_def)

lemma dict_get_Cons [simp]:
  "dict_get ((A, bodies) # d) X = (if X = A then bodies else dict_get d X)"
  by (simp add: dict_get_def)

lemma keys_dict_set: "keys (dict_set d k v) = (if k \<in> set (keys d) then keys d else keys d @ [k])"
  by (simp add: dict_set_def)

lemma dict_get_append_new:
  "k \<notin> set (keys d) \<Longrightarrow> dict_get (d @ [(k, v)]) x = (if x = k then v else dict_get d x)"
  by (auto simp: dict_get_def map_add_def map_of_not_key split: option.splits)

lemma dict_get_dict_set: "dict_get (dict_set d k v) x = (if x = k then v else dict_get d x)"
  by (simp add: dict_set_def dict_get_dict_upd dict_get_append_new)

lemma filter_fold_get:
  "distinct (keys Q) \<Longrightarrow>
   dict_get (fold (\<lambda>(A, bodies) d. if p A then dict_set d A (g bodies) else d) Q d0) X =
     (if p X \<and> X \<in> set (keys Q) then g (dict_get Q X) else dict_get d0 X)"
proof (induction Q arbitrary: d0)
  case Nil
  then show ?case by simp
next
  case (Cons e Q)
  obtain A bodies where e: "e = (A, bodies)" by (cases e)
  from Cons.prems e have d: "distinct (keys Q)" and n: "A \<notin> set (keys Q)"
    by simp_all
  show ?case
    using n by (auto simp: e Cons.IH [OF d] dict_get_dict_set)
qed

lemma filter_fold_keys:
  "set (keys (fold (\<lambda>(A, bodies) d. if p A then dict_set d A (g bodies) else d) Q d0)) =
     set (keys d0) \<union> {A \<in> set (keys Q). p A}"
proof (induction Q arbitrary: d0)
  case Nil
  then show ?case by simp
next
  case (Cons e Q)
  obtain A bodies where e: "e = (A, bodies)" by (cases e)
  show ?case
    by (auto simp: e Cons.IH keys_dict_set)
qed

lemma filter_fold_distinct:
  "distinct (keys d0) \<Longrightarrow>
   distinct (keys (fold (\<lambda>(A, bodies) d. if p A then dict_set d A (g bodies) else d) Q d0))"
proof (induction Q arbitrary: d0)
  case Nil
  then show ?case by simp
next
  case (Cons e Q)
  obtain A bodies where e: "e = (A, bodies)" by (cases e)
  from Cons.prems have "distinct (keys (if p A then dict_set d0 A (g bodies) else d0))"
    by (simp add: keys_dict_set)
  from Cons.IH [OF this] show ?case by (simp add: e)
qed

lemma prods_gen_of_alt:
  "prods_gen_of gen prods =
     fold (\<lambda>(A, bodies) d. if A \<in> set gen then dict_set d A (kept_bodies gen bodies) else d) prods []"
  unfolding prods_gen_of_def
  by (rule arg_cong [where f = "\<lambda>f. fold f prods []"]) (auto simp: fun_eq_iff)

lemma set_kept_bodies:
  "set (kept_bodies gen bodies) =
     {b \<in> set bodies. list_all (\<lambda>ch. is_terminal [ch] \<or> [ch] \<in> set gen) b}"
proof -
  have "set (fold (\<lambda>b kept. if list_all (\<lambda>ch. is_terminal [ch] \<or> [ch] \<in> set gen) b
                     then set_add b kept else kept) bodies acc) =
     set acc \<union> {b \<in> set bodies. list_all (\<lambda>ch. is_terminal [ch] \<or> [ch] \<in> set gen) b}" for acc
    by (induction bodies arbitrary: acc) auto
  then show ?thesis by (simp add: kept_bodies_def)
qed

definition useless_final :: "string \<Rightarrow> productions \<Rightarrow> productions" where
  "useless_final start prods =
     (let gen = generating_nonterminals prods;
          prods_gen = prods_gen_of gen prods;
          reach = reachable_nonterminals start prods_gen
      in fold (\<lambda>(A, bodies) pf. if A \<in> set reach then dict_set pf A bodies else pf) prods_gen [])"

lemma remove_useless_symbols_alt:
  "remove_useless_symbols start prods =
     (if start \<notin> set (keys (useless_final start prods))
      then dict_set (useless_final start prods) start [] else useless_final start prods)"
  by (simp add: remove_useless_symbols_def useless_final_def Let_def)

lemma keys_prods_gen_of:
  "set (keys (prods_gen_of gen prods)) = {A \<in> set (keys prods). A \<in> set gen}"
  by (simp add: prods_gen_of_alt filter_fold_keys)

lemma keys_useless_final:
  "set (keys (useless_final start prods)) =
     {A \<in> set (keys prods). A \<in> set (generating_nonterminals prods) \<and>
        A \<in> set (reachable_nonterminals start
                  (prods_gen_of (generating_nonterminals prods) prods))}"
  by (auto simp: useless_final_def Let_def filter_fold_keys keys_prods_gen_of)

lemma remove_useless_symbols_start:
  "start \<in> set (keys (remove_useless_symbols start prods)) \<and>
   (start \<notin> set (generating_nonterminals prods) \<longrightarrow>
      dict_get (remove_useless_symbols start prods) start = [])"
proof -
  have "start \<in> set (keys (remove_useless_symbols start prods))"
    by (simp add: remove_useless_symbols_alt keys_dict_set)
  moreover have "dict_get (remove_useless_symbols start prods) start = []"
    if "start \<notin> set (generating_nonterminals prods)"
  proof -
    from that have "start \<notin> set (keys (useless_final start prods))"
      by (simp add: keys_useless_final)
    then show ?thesis by (simp add: remove_useless_symbols_alt dict_get_dict_set)
  qed
  ultimately show ?thesis by blast
qed

section \<open>The start symbol in the conversion to normal form\<close>

lemma fresh_var_from_fresh: "fresh_var_from used base i \<notin> set used"
proof (induction used base i rule: fresh_var_from.induct)
  case (1 used base i)
  show ?case
  proof (cases "base @ str_of_nat i \<notin> set used")
    case True
    then show ?thesis by (simp add: fresh_var_from.simps [of used base i])
  next
    case False
    with 1 show ?thesis by (simp add: fresh_var_from.simps [of used base i])
  qed
qed

lemma fresh_var_fresh:
  "fresh_var used base = (c, used') \<Longrightarrow> c \<notin> set used \<and> set used' = insert c (set used)"
  using fresh_var_from_fresh [of used base 1] by (auto simp: fresh_var_def Let_def)

lemma keys_setdefault_add:
  "keys (dict_setdefault_add d k x) = (if k \<in> set (keys d) then keys d else keys d @ [k])"
  by (simp add: dict_setdefault_add_def)

lemma dict_get_setdefault_add:
  "dict_get (dict_setdefault_add d k x) s =
     (if s = k then set_add x (dict_get d k) else dict_get d s)"
  by (simp add: dict_setdefault_add_def dict_get_dict_upd dict_get_append_new dict_get_not_key
      set_add_def)

lemma distinct_keys_entry:
  "distinct (keys d) \<Longrightarrow> (A, bodies) \<in> set d \<Longrightarrow> dict_get d A = bodies"
  by (simp add: dict_get_def keys_def)

text \<open>The first pass never names the start symbol as the nonterminal of a terminal.\<close>

definition lift_inv :: "string \<Rightarrow> string list \<Rightarrow> (string \<times> string) list \<Rightarrow> bool" where
  "lift_inv start used term_var = (start \<in> set used \<and> (\<forall>p \<in> set term_var. snd p \<noteq> start))"

lemma lift_char_inv:
  assumes "lift_inv start used term_var" and "lift_char ch (used, term_var, nb) = (used', term_var', nb')"
  shows "lift_inv start used' term_var'"
proof (cases "is_terminal [ch] \<and> map_of term_var [ch] = None")
  case False
  with assms show ?thesis by (auto simp: lift_char_def split: option.splits if_splits)
next
  case True
  define candidate where "candidate = str_upper [ch]"
  show ?thesis
  proof (cases "candidate \<in> set used \<or> length candidate \<noteq> 1 \<or> \<not> str_isupper candidate")
    case c: True
    obtain c u where f: "fresh_var used (''T'' @ [ch]) = (c, u)"
      by (cases "fresh_var used (''T'' @ [ch])")
    from fresh_var_fresh [OF f] assms(1) have "c \<noteq> start" "start \<in> set u"
      by (auto simp: lift_inv_def)
    moreover from assms(2) True c f have "used' = set_add c u" "term_var' = term_var @ [([ch], c)]"
      by (auto simp: lift_char_def Let_def candidate_def)
    ultimately show ?thesis using assms(1) by (auto simp: lift_inv_def)
  next
    case c: False
    with assms(1) have "candidate \<noteq> start" by (auto simp: lift_inv_def)
    moreover from assms(2) True c
    have "used' = set_add candidate used" "term_var' = term_var @ [([ch], candidate)]"
      by (auto simp: lift_char_def Let_def candidate_def)
    ultimately show ?thesis using assms(1) by (auto simp: lift_inv_def)
  qed
qed

lemma lift_fold_inv:
  "lift_inv start used term_var \<Longrightarrow>
   fold lift_char b (used, term_var, nb) = (used', term_var', nb') \<Longrightarrow>
   lift_inv start used' term_var'"
proof (induction b arbitrary: used term_var nb)
  case Nil
  then show ?case by simp
next
  case (Cons ch b)
  obtain u1 t1 n1 where s: "lift_char ch (used, term_var, nb) = (u1, t1, n1)"
    by (cases "lift_char ch (used, term_var, nb)")
  from lift_char_inv [OF Cons.prems(1) s] have "lift_inv start u1 t1" .
  moreover from Cons.prems(2) s have "fold lift_char b (u1, t1, n1) = (used', term_var', nb')"
    by simp
  ultimately show ?case by (rule Cons.IH)
qed

definition cnf1_inv :: "string \<Rightarrow> productions \<Rightarrow> cnf1_state \<Rightarrow> bool" where
  "cnf1_inv start prods = (\<lambda>(used, term_var, cnf1).
     lift_inv start used term_var \<and> dict_get cnf1 start = [] \<and> keys cnf1 = keys prods)"

lemma cnf1_body_step_inv:
  assumes "cnf1_inv start prods st" and "A \<noteq> start"
  shows "cnf1_inv start prods (cnf1_body_step start A b st)"
proof -
  obtain used term_var cnf1 where st: "st = (used, term_var, cnf1)" by (cases st)
  obtain u1 t1 n1 where f: "fold lift_char b (used, term_var, []) = (u1, t1, n1)"
    by (cases "fold lift_char b (used, term_var, [])")
  from assms(1) st have "lift_inv start used term_var" by (simp add: cnf1_inv_def)
  from lift_fold_inv [OF this f] have "lift_inv start u1 t1" .
  with assms st f show ?thesis
    by (auto simp: cnf1_inv_def cnf1_body_step_def dict_get_dict_upd)
qed

lemma cnf1_pass_inv:
  assumes d: "distinct (keys prods)" and e: "dict_get prods start = []"
    and i: "cnf1_inv start prods st"
  shows "cnf1_inv start prods (cnf1_pass start prods st)"
  unfolding cnf1_pass_def
proof (rule fold_invariant [where I = "cnf1_inv start prods", OF i])
  fix x s assume x: "x \<in> set prods" and s: "cnf1_inv start prods s"
  obtain A bodies where ab: "x = (A, bodies)" by (cases x)
  show "cnf1_inv start prods ((case x of (A, bodies) \<Rightarrow> fold (cnf1_body_step start A) bodies) s)"
  proof (cases "A = start")
    case True
    with distinct_keys_entry [OF d] x ab e have "bodies = []" by auto
    with ab s show ?thesis by simp
  next
    case False
    have "cnf1_inv start prods (fold (cnf1_body_step start A) bodies s)"
      by (rule fold_invariant [where I = "cnf1_inv start prods", OF s])
         (rule cnf1_body_step_inv [OF _ False])
    with ab show ?thesis by simp
  qed
qed

text \<open>The rules of the lifted terminals leave the entry of the start symbol alone.\<close>

definition start_empty :: "string \<Rightarrow> productions \<Rightarrow> bool" where
  "start_empty start d = (start \<in> set (keys d) \<and> distinct (keys d) \<and> dict_get d start = [])"

lemma term_var_fold_inv:
  assumes "start_empty start c" and "\<forall>p \<in> set term_var. snd p \<noteq> start"
  shows "start_empty start (fold (\<lambda>(a, Va) c. dict_setdefault_add c Va a) term_var c)"
proof (rule fold_invariant [where I = "start_empty start", OF assms(1)])
  fix x s assume "x \<in> set term_var" "start_empty start s"
  with assms(2) show "start_empty start ((case x of (a, Va) \<Rightarrow> \<lambda>c. dict_setdefault_add c Va a) s)"
    by (cases x) (auto simp: start_empty_def keys_setdefault_add dict_get_setdefault_add)
qed

text \<open>The second pass: the chain of a body starts at its owner and goes on with fresh names.\<close>

definition cnf2_inv :: "string \<Rightarrow> string list \<times> productions \<Rightarrow> bool" where
  "cnf2_inv start = (\<lambda>(used, cnf2). start \<in> set used \<and> dict_get cnf2 start = [])"

definition chain_inv :: "string \<Rightarrow> chain_state \<Rightarrow> bool" where
  "chain_inv start = (\<lambda>(used, cnf2, prev_left).
     start \<in> set used \<and> dict_get cnf2 start = [] \<and> prev_left \<noteq> start)"

lemma chain_step_inv: "chain_inv start st \<Longrightarrow> chain_inv start (chain_step X st)"
proof -
  assume i: "chain_inv start st"
  obtain used cnf2 prev_left where st: "st = (used, cnf2, prev_left)" by (cases st)
  obtain Y u where f: "fresh_var used ''Y'' = (Y, u)" by (cases "fresh_var used ''Y''")
  from fresh_var_fresh [OF f] i st have "Y \<noteq> start" "start \<in> set u"
    by (auto simp: chain_inv_def)
  with i st f show ?thesis
    by (auto simp: chain_inv_def chain_step_def dict_get_setdefault_add)
qed

lemma cnf2_body_step_inv:
  assumes "cnf2_inv start st" and "A \<noteq> start"
  shows "cnf2_inv start (cnf2_body_step start A b st)"
proof -
  obtain used cnf2 where st: "st = (used, cnf2)" by (cases st)
  from assms st have c: "chain_inv start (used, cnf2, A)" by (simp add: cnf2_inv_def chain_inv_def)
  have "chain_inv start (fold chain_step (take (length b - 2) b) (used, cnf2, A))"
    by (rule fold_invariant [where I = "chain_inv start", OF c]) (rule chain_step_inv)
  then show ?thesis
    using assms st
    by (auto simp: cnf2_inv_def chain_inv_def cnf2_body_step_def dict_get_dict_upd
        dict_get_setdefault_add split: prod.splits)
qed

lemma cnf2_pass_inv:
  assumes c: "start_empty start cnf1" and i: "cnf2_inv start st"
  shows "cnf2_inv start (fold (\<lambda>(A, bodies). fold (cnf2_body_step start A) bodies) cnf1 st)"
proof (rule fold_invariant [where I = "cnf2_inv start", OF i])
  fix x s assume x: "x \<in> set cnf1" and s: "cnf2_inv start s"
  obtain A bodies where ab: "x = (A, bodies)" by (cases x)
  show "cnf2_inv start ((case x of (A, bodies) \<Rightarrow> fold (cnf2_body_step start A) bodies) s)"
  proof (cases "A = start")
    case True
    with distinct_keys_entry [of cnf1 A bodies] x ab c have "bodies = []"
      by (auto simp: start_empty_def)
    with ab s show ?thesis by simp
  next
    case False
    have "cnf2_inv start (fold (cnf2_body_step start A) bodies s)"
      by (rule fold_invariant [where I = "cnf2_inv start", OF s])
         (rule cnf2_body_step_inv [OF _ False])
    with ab show ?thesis by simp
  qed
qed

lemma to_cnf_start_empty:
  assumes d: "distinct (keys prods)" and k: "start \<in> set (keys prods)"
    and e: "dict_get prods start = []"
  shows "dict_get (to_cnf start prods) start = []"
proof -
  obtain used term_var cnf1 where
    p: "cnf1_pass start prods (keys prods, [], empty_like prods) = (used, term_var, cnf1)"
    by (cases "cnf1_pass start prods (keys prods, [], empty_like prods)")
  have "cnf1_inv start prods (keys prods, [], empty_like prods)"
    using k by (simp add: cnf1_inv_def lift_inv_def)
  from cnf1_pass_inv [OF d e this] p
  have tv: "\<forall>p \<in> set term_var. snd p \<noteq> start" and c1: "start_empty start cnf1"
    using d k by (auto simp: cnf1_inv_def lift_inv_def start_empty_def)
  define cnf1' where "cnf1' = fold (\<lambda>(a, Va) c. dict_setdefault_add c Va a) term_var cnf1"
  have c1': "start_empty start cnf1'"
    unfolding cnf1'_def by (rule term_var_fold_inv [OF c1 tv])
  then have "cnf2_inv start (keys cnf1', empty_like cnf1')"
    by (simp add: cnf2_inv_def start_empty_def)
  from cnf2_pass_inv [OF c1' this]
  have "dict_get (snd (fold (\<lambda>(A, bodies). fold (cnf2_body_step start A) bodies) cnf1'
     (keys cnf1', empty_like cnf1'))) start = []"
    by (simp add: cnf2_inv_def case_prod_beta)
  then show ?thesis by (simp add: to_cnf_def p Let_def cnf1'_def)
qed

section \<open>Generating and reachable nonterminals\<close>

text \<open>
  The generating set as the loop builds it: each member has a body whose symbols are
  terminals or earlier members.  The reachable set as a graph search from the start
  symbol.
\<close>

inductive gen_list :: "productions \<Rightarrow> string list \<Rightarrow> bool" for prods where
  gen_list_Nil: "gen_list prods []"
| gen_list_snoc: "gen_list prods g \<Longrightarrow> (A, bodies) \<in> set prods \<Longrightarrow> b \<in> set bodies \<Longrightarrow>
     (\<forall>ch \<in> set b. is_terminal [ch] \<or> [ch] \<in> set g) \<Longrightarrow> gen_list prods (g @ [A])"

inductive reach_in :: "productions \<Rightarrow> string \<Rightarrow> string \<Rightarrow> bool" for prods start where
  reach_in_start: "reach_in prods start start"
| reach_in_step: "reach_in prods start A \<Longrightarrow> b \<in> set (dict_get prods A) \<Longrightarrow> ch \<in> set b \<Longrightarrow>
     is_nonterminal [ch] \<Longrightarrow> reach_in prods start [ch]"

lemma gen_body_ok_iff:
  "gen_body_ok g b \<longleftrightarrow> (\<forall>ch \<in> set b. is_terminal [ch] \<or> (is_nonterminal [ch] \<longrightarrow> [ch] \<in> set g))"
  by (induction b) auto

lemma gen_bodies_iff: "gen_bodies g bodies \<longleftrightarrow> (\<exists>b \<in> set bodies. gen_body_ok g b)"
  by (induction bodies) auto

lemma gen_pass_list:
  "valid_prods P \<Longrightarrow> set Q \<subseteq> set P \<Longrightarrow> gen_list P g \<Longrightarrow> gen_pass Q g c = (g', c') \<Longrightarrow>
   gen_list P g'"
proof (induction Q g c rule: gen_pass.induct)
  case (1 gen changed)
  then show ?case by simp
next
  case (2 A bodies rest gen changed)
  from "2.prems"(2) have m: "(A, bodies) \<in> set P" and r: "set rest \<subseteq> set P" by auto
  show ?case
  proof (cases "A \<notin> set gen \<and> gen_bodies gen bodies")
    case True
    then obtain b where b: "b \<in> set bodies" "gen_body_ok gen b" by (auto simp: gen_bodies_iff)
    have "\<forall>ch \<in> set b. is_terminal [ch] \<or> [ch] \<in> set gen"
    proof
      fix ch assume ch: "ch \<in> set b"
      from valid_prods_body_char [OF "2.prems"(1) m b(1) ch] b(2) ch
      show "is_terminal [ch] \<or> [ch] \<in> set gen" by (auto simp: gen_body_ok_iff)
    qed
    from gen_list_snoc [OF "2.prems"(3) m b(1) this] True
    have "gen_list P (set_add A gen)" by (simp add: set_add_def)
    with 2 True r show ?thesis by simp
  next
    case False
    with 2 r show ?thesis by (auto split: if_splits)
  qed
qed

lemma gen_loop_list: "valid_prods P \<Longrightarrow> gen_list P g \<Longrightarrow> gen_list P (gen_loop P g)"
proof (induction P g rule: gen_loop.induct)
  case (1 prods gen)
  obtain g' c' where p: "gen_pass prods gen False = (g', c')"
    by (cases "gen_pass prods gen False")
  have s: "gen_list prods g'"
    by (rule gen_pass_list [OF "1.prems"(1) subset_refl "1.prems"(2) p])
  show ?case
  proof (cases c')
    case True
    with "1.IH" [OF p [symmetric] True "1.prems"(1) s] p show ?thesis
      by (simp add: gen_loop.simps [of prods gen])
  next
    case False
    with s p show ?thesis by (simp add: gen_loop.simps [of prods gen])
  qed
qed

lemma generating_nonterminals_list:
  "valid_prods P \<Longrightarrow> gen_list P (generating_nonterminals P)"
  unfolding generating_nonterminals_def by (rule gen_loop_list) (simp_all add: gen_list_Nil)

lemma gen_list_keys: "gen_list P g \<Longrightarrow> set g \<subseteq> set (keys P)"
  by (induction rule: gen_list.induct) (auto simp: keys_def intro: rev_image_eqI)

text \<open>A pass that leaves the flag down has changed nothing and found nothing to add.\<close>

lemma flag_fold:
  assumes step: "\<And>x r c r'. x \<in> set xs \<Longrightarrow> f x (r, c) = (r', False) \<Longrightarrow> r' = r \<and> \<not> c \<and> Q x r"
    and "fold f xs (r, c) = (r', False)"
  shows "r' = r \<and> \<not> c \<and> (\<forall>x \<in> set xs. Q x r)"
  using assms
proof (induction xs arbitrary: r c)
  case Nil
  then show ?case by simp
next
  case (Cons x xs)
  obtain r1 c1 where s: "f x (r, c) = (r1, c1)" by (cases "f x (r, c)")
  with Cons.prems(2) have f: "fold f xs (r1, c1) = (r', False)" by simp
  have "r' = r1 \<and> \<not> c1 \<and> (\<forall>x \<in> set xs. Q x r1)"
    by (rule Cons.IH [OF _ f]) (rule Cons.prems(1), simp_all)
  moreover with s Cons.prems(1) [of x r c r1] have "r1 = r \<and> \<not> c \<and> Q x r" by simp
  ultimately show ?case by simp
qed

lemma reach_pass_unchanged:
  assumes "reach_pass prods snapshot (r, c) = (r', False)"
  shows "r' = r \<and> \<not> c \<and>
    (\<forall>A \<in> set snapshot. \<forall>b \<in> set (dict_get prods A). \<forall>ch \<in> set b.
       \<not> (is_nonterminal [ch] \<and> [ch] \<notin> set r))"
  using assms unfolding reach_pass_def
proof (rule flag_fold [rotated])
  fix A r c r'
  assume "fold (\<lambda>b. fold reach_char_step b) (dict_get prods A) (r, c) = (r', False)"
  then show "r' = r \<and> \<not> c \<and>
     (\<forall>b \<in> set (dict_get prods A). \<forall>ch \<in> set b. \<not> (is_nonterminal [ch] \<and> [ch] \<notin> set r))"
  proof (rule flag_fold [rotated])
    fix b r c r'
    assume "fold reach_char_step b (r, c) = (r', False)"
    then show "r' = r \<and> \<not> c \<and> (\<forall>ch \<in> set b. \<not> (is_nonterminal [ch] \<and> [ch] \<notin> set r))"
      by (rule flag_fold [rotated]) (auto simp: reach_char_step_def split: if_splits)
  qed
qed

definition reach_closed :: "productions \<Rightarrow> string list \<Rightarrow> bool" where
  "reach_closed prods r =
     (\<forall>A \<in> set r. \<forall>b \<in> set (dict_get prods A). \<forall>ch \<in> set b. is_nonterminal [ch] \<longrightarrow> [ch] \<in> set r)"

lemma reach_loop_closed:
  "reach_closed prods (reach_loop prods r) \<and> set r \<subseteq> set (reach_loop prods r)"
proof (induction prods r rule: reach_loop.induct)
  case (1 prods reach)
  obtain r' c' where p: "reach_pass prods reach (reach, False) = (r', c')"
    by (cases "reach_pass prods reach (reach, False)")
  from grows_reach_pass [of prods "(reach, False)" reach] p have m: "set reach \<subseteq> set r'"
    by (simp add: grows_def)
  show ?case
  proof (cases c')
    case True
    with "1.IH" [OF p [symmetric] True] p m show ?thesis
      by (auto simp: reach_loop.simps [of prods reach])
  next
    case False
    with p reach_pass_unchanged [of prods reach reach False r'] show ?thesis
      by (auto simp: reach_loop.simps [of prods reach] reach_closed_def)
  qed
qed

lemma reach_pass_sound:
  assumes "\<forall>A \<in> set snapshot. reach_in prods start A"
    and "\<forall>A \<in> set (fst st). reach_in prods start A"
  shows "\<forall>A \<in> set (fst (reach_pass prods snapshot st)). reach_in prods start A"
  unfolding reach_pass_def
proof (rule fold_invariant [where I = "\<lambda>st. \<forall>A \<in> set (fst st). reach_in prods start A",
      OF assms(2)])
  fix A and s :: "string list \<times> bool"
  assume A: "A \<in> set snapshot" and s: "\<forall>A \<in> set (fst s). reach_in prods start A"
  show "\<forall>A \<in> set (fst (fold (\<lambda>b. fold reach_char_step b) (dict_get prods A) s)).
     reach_in prods start A"
  proof (rule fold_invariant [where I = "\<lambda>st. \<forall>A \<in> set (fst st). reach_in prods start A",
        OF s])
    fix b and s :: "string list \<times> bool"
    assume b: "b \<in> set (dict_get prods A)" and s: "\<forall>A \<in> set (fst s). reach_in prods start A"
    show "\<forall>A \<in> set (fst (fold reach_char_step b s)). reach_in prods start A"
    proof (rule fold_invariant [where I = "\<lambda>st. \<forall>A \<in> set (fst st). reach_in prods start A",
          OF s])
      fix ch and s :: "string list \<times> bool"
      assume ch: "ch \<in> set b" and s: "\<forall>A \<in> set (fst s). reach_in prods start A"
      from assms(1) A have "reach_in prods start A" by simp
      from reach_in_step [OF this b ch] s
      show "\<forall>A \<in> set (fst (reach_char_step ch s)). reach_in prods start A"
        by (cases s) (auto simp: reach_char_step_def)
    qed
  qed
qed

lemma reach_loop_sound:
  "\<forall>A \<in> set r. reach_in prods start A \<Longrightarrow> \<forall>A \<in> set (reach_loop prods r). reach_in prods start A"
proof (induction prods r rule: reach_loop.induct)
  case (1 prods reach)
  obtain r' c' where p: "reach_pass prods reach (reach, False) = (r', c')"
    by (cases "reach_pass prods reach (reach, False)")
  from reach_pass_sound [of reach prods start "(reach, False)"] "1.prems" p
  have s: "\<forall>A \<in> set r'. reach_in prods start A" by simp
  show ?case
  proof (cases c')
    case True
    with "1.IH" [OF p [symmetric] True s] p show ?thesis
      by (simp add: reach_loop.simps [of prods reach])
  next
    case False
    with s p show ?thesis by (simp add: reach_loop.simps [of prods reach])
  qed
qed

lemma reachable_nonterminals_iff:
  "A \<in> set (reachable_nonterminals start prods) \<longleftrightarrow> reach_in prods start A"
proof
  assume "A \<in> set (reachable_nonterminals start prods)"
  with reach_loop_sound [of "[start]" prods start] show "reach_in prods start A"
    by (simp add: reachable_nonterminals_def reach_in_start)
next
  assume "reach_in prods start A"
  then show "A \<in> set (reachable_nonterminals start prods)"
  proof (induction rule: reach_in.induct)
    case reach_in_start
    from reach_loop_closed [of prods "[start]"] show ?case
      by (simp add: reachable_nonterminals_def)
  next
    case (reach_in_step A b ch)
    with reach_loop_closed [of prods "[start]"] show ?case
      by (auto simp: reachable_nonterminals_def reach_closed_def)
  qed
qed

text \<open>The bodies of the returned grammar.\<close>

lemma valid_prods_distinct: "valid_prods P \<Longrightarrow> distinct (keys P)"
  by (simp add: valid_prods_def)

lemma distinct_keys_prods_gen_of: "distinct (keys (prods_gen_of gen prods))"
  by (simp add: prods_gen_of_alt filter_fold_distinct)

lemma dict_get_prods_gen_of:
  "distinct (keys prods) \<Longrightarrow>
   dict_get (prods_gen_of gen prods) A =
     (if A \<in> set gen \<and> A \<in> set (keys prods) then kept_bodies gen (dict_get prods A) else [])"
  by (simp add: prods_gen_of_alt filter_fold_get)

lemma dict_get_useless_final:
  "dict_get (useless_final start prods) A =
     (let gen = generating_nonterminals prods; prods_gen = prods_gen_of gen prods in
      if A \<in> set (reachable_nonterminals start prods_gen) \<and> A \<in> set (keys prods_gen)
      then dict_get prods_gen A else [])"
  by (simp add: useless_final_def Let_def filter_fold_get distinct_keys_prods_gen_of)

lemma dict_get_remove_useless_symbols:
  "dict_get (remove_useless_symbols start prods) A = dict_get (useless_final start prods) A"
  by (simp add: remove_useless_symbols_alt dict_get_dict_set dict_get_not_key)

lemma keys_remove_useless_symbols:
  "set (keys (remove_useless_symbols start prods)) =
     insert start (set (keys (useless_final start prods)))"
  by (auto simp: remove_useless_symbols_alt keys_dict_set)

lemma remove_useless_symbols_body:
  assumes d: "distinct (keys P)"
    and "A \<in> set (generating_nonterminals P)"
    and "A \<in> set (reachable_nonterminals start (prods_gen_of (generating_nonterminals P) P))"
    and "(A, bodies) \<in> set P" and "b \<in> set bodies"
    and "\<forall>ch \<in> set b. is_terminal [ch] \<or> [ch] \<in> set (generating_nonterminals P)"
  shows "b \<in> set (dict_get (remove_useless_symbols start P) A)"
proof -
  from assms(4) have k: "A \<in> set (keys P)" by (auto simp: keys_def intro: rev_image_eqI)
  from distinct_keys_entry [OF d assms(4)] assms(5,6)
  have "b \<in> set (kept_bodies (generating_nonterminals P) (dict_get P A))"
    by (simp add: set_kept_bodies list_all_iff)
  with assms(2,3) k show ?thesis
    by (simp add: dict_get_remove_useless_symbols dict_get_useless_final Let_def
        dict_get_prods_gen_of [OF d] keys_prods_gen_of)
qed

lemma derives_body:
  assumes v: "valid_prods P" and b: "b \<in> set (dict_get (remove_useless_symbols start P) A)"
  shows "\<exists>X. A = [X] \<and> derives (remove_useless_symbols start P) [X] (body_string b)"
proof -
  from b have "A \<in> set (keys (prods_gen_of (generating_nonterminals P) P))"
    by (auto simp: dict_get_remove_useless_symbols dict_get_useless_final Let_def
        split: if_splits)
  then have "A \<in> set (keys P)" by (simp add: keys_prods_gen_of)
  then obtain bs where "(A, bs) \<in> set P" by (auto simp: keys_def)
  from valid_prods_key [OF v this] obtain X where X: "A = [X]" by blast
  from dict_get_in_set [OF b] obtain bodies
    where "(A, bodies) \<in> set (remove_useless_symbols start P)" "b \<in> set bodies" by blast
  from derives_production [OF this X] X show ?thesis by blast
qed

text \<open>Every member of the reachable set occurs in a sentential form.\<close>

lemma eps_not_nonterminal: "ch \<in> set EPS \<Longrightarrow> \<not> is_nonterminal [ch]"
  by (simp add: EPS_def ch_isupper_def eps_ch_def cap_eps_ch_def ascii_uppercase_def)

lemma reach_in_reachable:
  assumes v: "valid_prods P"
  shows "reach_in (prods_gen_of (generating_nonterminals P) P) start A \<Longrightarrow>
     reachable_in start (remove_useless_symbols start P) A"
proof (induction rule: reach_in.induct)
  case reach_in_start
  have "derives (remove_useless_symbols start P) start ([] @ start @ [])"
    by (simp add: derives_refl)
  then show ?case unfolding reachable_in_def by blast
next
  case (reach_in_step A b ch)
  let ?out = "remove_useless_symbols start P"
  from reach_in_step.IH obtain u v where uv: "derives ?out start (u @ A @ v)"
    by (auto simp: reachable_in_def)
  from reach_in_step.hyps(1) have r: "A \<in> set (reachable_nonterminals start
     (prods_gen_of (generating_nonterminals P) P))"
    by (simp add: reachable_nonterminals_iff)
  from reach_in_step.hyps(2)
  have "A \<in> set (keys (prods_gen_of (generating_nonterminals P) P))"
    using dict_get_not_key by fastforce
  with r reach_in_step.hyps(2) have b: "b \<in> set (dict_get ?out A)"
    by (simp add: dict_get_remove_useless_symbols dict_get_useless_final Let_def)
  from derives_body [OF v b] obtain X
    where X: "A = [X]" "derives ?out [X] (body_string b)" by blast
  from reach_in_step.hyps(3,4) eps_not_nonterminal have "b \<noteq> EPS" by blast
  with X have "derives ?out A b" by (simp add: body_string_def)
  from derives_context [OF this, of u v] uv have d: "derives ?out start (u @ b @ v)"
    by (rule derives_trans [rotated])
  from reach_in_step.hyps(3) obtain b1 b2 where "b = b1 @ ch # b2" by (auto dest: split_list)
  with d have "derives ?out start ((u @ b1) @ [ch] @ (b2 @ v))" by simp
  then show ?case unfolding reachable_in_def by blast
qed

text \<open>Every reachable member of the generating set derives a string of terminals.\<close>

lemma derives_terminal_string:
  "(\<And>ch. ch \<in> set b \<Longrightarrow> \<exists>w. derives P [ch] w \<and> list_all (\<lambda>c. is_terminal [c]) w) \<Longrightarrow>
   \<exists>w. derives P b w \<and> list_all (\<lambda>c. is_terminal [c]) w"
proof (induction b)
  case Nil
  have "derives P [] [] \<and> list_all (\<lambda>c. is_terminal [c]) []" by (simp add: derives_refl)
  then show ?case by blast
next
  case (Cons c b)
  from Cons.prems [of c] obtain w1 where w1: "derives P [c] w1" "list_all (\<lambda>c. is_terminal [c]) w1"
    by auto
  from Cons.IH Cons.prems obtain w2 where w2: "derives P b w2" "list_all (\<lambda>c. is_terminal [c]) w2"
    by auto
  from derives_append [OF w1(1) w2(1)] w1(2) w2(2)
  have "derives P (c # b) (w1 @ w2) \<and> list_all (\<lambda>c. is_terminal [c]) (w1 @ w2)" by simp
  then show ?case by blast
qed

lemma gen_list_generating:
  assumes v: "valid_prods P"
  shows "gen_list P g \<Longrightarrow> set g \<subseteq> set (generating_nonterminals P) \<Longrightarrow> A \<in> set g \<Longrightarrow>
     A \<in> set (reachable_nonterminals start (prods_gen_of (generating_nonterminals P) P)) \<Longrightarrow>
     generating_in (remove_useless_symbols start P) A"
proof (induction arbitrary: A rule: gen_list.induct)
  case gen_list_Nil
  then show ?case by simp
next
  case (gen_list_snoc g B bodies b)
  let ?G = "generating_nonterminals P"
  let ?PG = "prods_gen_of ?G P"
  let ?R = "reachable_nonterminals start ?PG"
  let ?out = "remove_useless_symbols start P"
  show ?case
  proof (cases "A \<in> set g")
    case True
    with gen_list_snoc.IH gen_list_snoc.prems show ?thesis by simp
  next
    case False
    with gen_list_snoc.prems have AB: "A = B" and AG: "A \<in> set ?G" and AR: "A \<in> set ?R"
      and gG: "set g \<subseteq> set ?G" by auto
    from gen_list_snoc.hyps(4) gG
    have all: "\<forall>ch \<in> set b. is_terminal [ch] \<or> [ch] \<in> set ?G" by blast
    have b: "b \<in> set (dict_get ?out A)"
      using remove_useless_symbols_body [OF valid_prods_distinct [OF v] AG AR _ _ all]
        gen_list_snoc.hyps(2,3) AB by simp
    from derives_body [OF v b] obtain X
      where X: "A = [X]" "derives ?out [X] (body_string b)" by blast
    have bPG: "b \<in> set (dict_get ?PG A)"
      using b by (auto simp: dict_get_remove_useless_symbols dict_get_useless_final Let_def
          split: if_splits)
    have "\<exists>w. derives ?out (body_string b) w \<and> list_all (\<lambda>c. is_terminal [c]) w"
    proof (cases "b = EPS")
      case True
      have "derives ?out [] [] \<and> list_all (\<lambda>c. is_terminal [c]) []" by (simp add: derives_refl)
      with True show ?thesis unfolding body_string_def by auto
    next
      case ne: False
      have "\<exists>w. derives ?out b w \<and> list_all (\<lambda>c. is_terminal [c]) w"
      proof (rule derives_terminal_string)
        fix ch assume ch: "ch \<in> set b"
        show "\<exists>w. derives ?out [ch] w \<and> list_all (\<lambda>c. is_terminal [c]) w"
        proof (cases "is_terminal [ch]")
          case True
          then have "derives ?out [ch] [ch] \<and> list_all (\<lambda>c. is_terminal [c]) [ch]"
            by (simp add: derives_refl)
          then show ?thesis by blast
        next
          case nt: False
          with gen_list_snoc.hyps(4) ch have cg: "[ch] \<in> set g" by blast
          from valid_prods_body_char [OF v gen_list_snoc.hyps(2,3) ch] nt
          have "is_nonterminal [ch]" by blast
          with reach_loop_closed [of ?PG "[start]"] AR bPG ch have "[ch] \<in> set ?R"
            by (auto simp: reachable_nonterminals_def reach_closed_def)
          from gen_list_snoc.IH [OF gG cg this] show ?thesis
            by (simp add: generating_in_def)
        qed
      qed
      with ne show ?thesis by (simp add: body_string_def)
    qed
    then obtain w where "derives ?out (body_string b) w" "list_all (\<lambda>c. is_terminal [c]) w"
      by blast
    with X derives_trans [OF X(2)] show ?thesis unfolding generating_in_def by blast
  qed
qed

lemma useless_final_key:
  "A \<in> set (keys (useless_final start P)) \<Longrightarrow>
   A \<in> set (generating_nonterminals P) \<and>
   A \<in> set (reachable_nonterminals start (prods_gen_of (generating_nonterminals P) P))"
  by (simp add: keys_useless_final)

section \<open>What a stage writes\<close>

text \<open>
  The invariant of a run that starts in the store \<open>h0\<close>: the objects of \<open>h0\<close> are
  as they were, and a dictionary allocated since refers to objects allocated since.
\<close>

definition young :: "nat \<Rightarrow> store \<Rightarrow> bool" where
  "young n h = (\<forall>d k a. n \<le> d \<longrightarrow> (k, a) \<in> set (dict_at h d) \<longrightarrow> n \<le> a \<and> a < length h)"

definition store_inv :: "store \<Rightarrow> store \<Rightarrow> bool" where
  "store_inv h0 h = (length h0 \<le> length h \<and> take (length h0) h = h0 \<and> young (length h0) h)"

lemma store_inv_refl: "store_inv h h"
  by (simp add: store_inv_def young_def dict_at_def)

lemma dict_at_append:
  "dict_at (h @ [x]) d = (if d = length h then (case x of SetObj s \<Rightarrow> [] | DictObj es \<Rightarrow> es)
                          else dict_at h d)"
  by (auto simp: dict_at_def nth_append)

lemma dict_at_update:
  "dict_at (h[a := x]) d = (if d = a \<and> a < length h then (case x of SetObj s \<Rightarrow> [] | DictObj es \<Rightarrow> es)
                            else dict_at h d)"
  by (auto simp: dict_at_def)

lemma store_inv_new_set: "store_inv h0 h \<Longrightarrow> store_inv h0 (snd (new_set s h))"
  by (auto simp: store_inv_def new_set_def young_def dict_at_append less_Suc_eq)

lemma store_inv_new_dict: "store_inv h0 h \<Longrightarrow> store_inv h0 (snd (new_dict h))"
  by (auto simp: store_inv_def new_dict_def young_def dict_at_append less_Suc_eq)

lemma fst_new_set [simp]: "fst (new_set s h) = length h"
  by (simp add: new_set_def)

lemma fst_new_dict [simp]: "fst (new_dict h) = length h"
  by (simp add: new_dict_def)

lemma length_new_set [simp]: "length (snd (new_set s h)) = Suc (length h)"
  by (simp add: new_set_def)

lemma store_inv_set_apply_at: "store_inv h0 h \<Longrightarrow> length h0 \<le> a \<Longrightarrow> store_inv h0 (set_apply_at f a h)"
  by (auto simp: store_inv_def set_apply_at_def young_def dict_at_update split: if_splits)

lemma store_inv_item_apply: "store_inv h0 h \<Longrightarrow> length h0 \<le> d \<Longrightarrow> store_inv h0 (item_apply d k f h)"
proof -
  assume i: "store_inv h0 h" and d: "length h0 \<le> d"
  show ?thesis
  proof (cases "map_of (dict_at h d) k")
    case None
    with i show ?thesis by (simp add: item_apply_def)
  next
    case (Some a)
    then have "(k, a) \<in> set (dict_at h d)" by (rule map_of_SomeD)
    with i d have "length h0 \<le> a" by (auto simp: store_inv_def young_def)
    from store_inv_set_apply_at [OF i this] Some show ?thesis by (simp add: item_apply_def)
  qed
qed

lemma store_inv_setitem:
  assumes i: "store_inv h0 h" and d: "length h0 \<le> d" and a: "length h0 \<le> a" "a < length h"
  shows "store_inv h0 (setitem d k a h)"
proof -
  have "young (length h0) (setitem d k a h)"
    unfolding young_def
  proof (intro allI impI)
    fix d' k' a'
    assume d': "length h0 \<le> d'" and m: "(k', a') \<in> set (dict_at (setitem d k a h) d')"
    show "length h0 \<le> a' \<and> a' < length (setitem d k a h)"
    proof (cases "d' = d \<and> d < length h")
      case True
      with m have "(k', a') \<in> set (dict_at h d) \<or> a' = a"
        by (auto simp: setitem_def dict_at_update Let_def split: if_splits)
      with i d a show ?thesis by (auto simp: store_inv_def young_def setitem_def)
    next
      case False
      with m have "(k', a') \<in> set (dict_at h d')"
        by (auto simp: setitem_def dict_at_update)
      with i d' show ?thesis by (auto simp: store_inv_def young_def setitem_def)
    qed
  qed
  with i d show ?thesis by (simp add: store_inv_def setitem_def)
qed

lemma store_inv_alloc_setitem:
  assumes "store_inv h0 h" and "length h0 \<le> d"
  shows "store_inv h0 (case new_set s h of (a, h) \<Rightarrow> setitem d k a h)"
proof -
  from assms(1) have l: "length h0 \<le> length h" by (simp add: store_inv_def)
  have "store_inv h0 (setitem d k (length h) (snd (new_set s h)))"
    by (rule store_inv_setitem [OF store_inv_new_set [OF assms(1)] assms(2) l]) simp
  then show ?thesis by (simp add: new_set_def)
qed

lemma store_inv_setdefault_add: "store_inv h0 h \<Longrightarrow> length h0 \<le> d \<Longrightarrow> store_inv h0 (setdefault_add d k x h)"
  using store_inv_item_apply [OF store_inv_alloc_setitem]
  by (auto simp: setdefault_add_def store_inv_item_apply new_set_def)

lemma store_inv_empty_like_st:
  assumes "store_inv h0 h"
  shows "store_inv h0 (snd (empty_like_st p h)) \<and> length h0 \<le> fst (empty_like_st p h)"
proof -
  define d where "d = length h"
  from assms have l: "length h0 \<le> d" by (simp add: store_inv_def d_def)
  have "store_inv h0 (fold (\<lambda>A h. case new_set [] h of (a, h) \<Rightarrow> setitem d A a h)
                  (map fst (dict_at h p)) (snd (new_dict h)))"
    by (rule fold_invariant [where I = "store_inv h0", OF store_inv_new_dict [OF assms]])
       (rule store_inv_alloc_setitem [OF _ l])
  with l show ?thesis by (simp add: empty_like_st_def new_dict_def d_def)
qed

lemma store_inv_epsilon_body_step:
  "store_inv h0 h \<Longrightarrow> length h0 \<le> np \<Longrightarrow>
   store_inv h0 (epsilon_body_step_st start keep nullable np A b h)"
  by (simp add: epsilon_body_step_st_def Let_def store_inv_item_apply)

lemma store_inv_eliminate_epsilon: "store_inv h (snd (eliminate_epsilon_st start p keep h))"
proof -
  obtain np h1 where e: "empty_like_st p h = (np, h1)" by (cases "empty_like_st p h")
  from store_inv_empty_like_st [OF store_inv_refl, where p = p and h = h] e
  have i1: "store_inv h h1" and np: "length h \<le> np" by simp_all
  define nullable where "nullable = find_nullable start (view h p)"
  define h2 where "h2 = fold (\<lambda>(A, bodies) h.
      fold (epsilon_body_step_st start keep nullable np A) (set_at h bodies) h) (dict_at h1 p) h1"
  define h3 where "h3 = (if keep \<and> start \<in> set nullable
      then item_apply np start (set_add EPS) h2 else h2)"
  define h4 where "h4 = fold (\<lambda>A h. if A \<noteq> start then item_apply np A (set_discard EPS) h else h)
      (map fst (dict_at h3 np)) h3"
  have i2: "store_inv h h2"
    unfolding h2_def
  proof (rule fold_invariant [where I = "store_inv h", OF i1])
    fix x :: "string \<times> nat" and s :: store assume s: "store_inv h s"
    obtain A bodies where x: "x = (A, bodies)" by (cases x)
    have "store_inv h (fold (epsilon_body_step_st start keep nullable np A) (set_at s bodies) s)"
      by (rule fold_invariant [where I = "store_inv h", OF s])
         (rule store_inv_epsilon_body_step [OF _ np])
    with x show "store_inv h ((case x of (A, bodies) \<Rightarrow> \<lambda>h.
        fold (epsilon_body_step_st start keep nullable np A) (set_at h bodies) h) s)" by simp
  qed
  have i3: "store_inv h h3"
    unfolding h3_def using i2 np by (simp add: store_inv_item_apply)
  have i4: "store_inv h h4"
    unfolding h4_def
    by (rule fold_invariant [where I = "store_inv h", OF i3])
       (simp add: store_inv_item_apply np)
  have "snd (eliminate_epsilon_st start p keep h) = h4"
    by (simp add: eliminate_epsilon_st_def e Let_def h4_def h3_def h2_def nullable_def)
  with i4 show ?thesis by simp
qed

lemma store_inv_eliminate_unit_productions:
  "store_inv h (snd (eliminate_unit_productions_st start p h))"
proof -
  obtain np h1 where e: "empty_like_st p h = (np, h1)" by (cases "empty_like_st p h")
  from store_inv_empty_like_st [OF store_inv_refl, where p = p and h = h] e
  have i1: "store_inv h h1" and np: "length h \<le> np" by simp_all
  define unit where "unit = unit_loop (view h p) (unit_init (map fst (dict_at h p)))"
  have "store_inv h (fold (\<lambda>A h.
      fold (\<lambda>B h.
              fold (\<lambda>body h. if is_unit_body body then h
                              else item_apply np A (set_add body) h)
                (dict_get (view h p) B) h)
        (unit A) h) (map fst (dict_at h p)) h1)"
  proof (rule fold_invariant [where I = "store_inv h", OF i1])
    fix A s assume s: "store_inv h s"
    show "store_inv h (fold (\<lambda>B h.
              fold (\<lambda>body h. if is_unit_body body then h
                              else item_apply np A (set_add body) h)
                (dict_get (view h p) B) h) (unit A) s)"
    proof (rule fold_invariant [where I = "store_inv h", OF s])
      fix B t assume t: "store_inv h t"
      show "store_inv h (fold (\<lambda>body h. if is_unit_body body then h
                              else item_apply np A (set_add body) h) (dict_get (view t p) B) t)"
        by (rule fold_invariant [where I = "store_inv h", OF t])
           (simp add: store_inv_item_apply np)
    qed
  qed
  then show ?thesis
    by (simp add: eliminate_unit_productions_st_def e Let_def unit_def)
qed

lemma store_inv_prods_gen_step:
  assumes i: "store_inv h0 h" and d: "length h0 \<le> pg"
  shows "store_inv h0 (prods_gen_step_st gen pg x h)"
proof -
  obtain A bodies where x: "x = (A, bodies)" by (cases x)
  from i have l: "length h0 \<le> length h" by (simp add: store_inv_def)
  define h1 where "h1 = snd (new_set [] h)"
  have i1: "store_inv h0 h1" unfolding h1_def by (rule store_inv_new_set [OF i])
  define h2 where "h2 = fold (kept_step_st gen (length h)) (set_at h1 bodies) h1"
  have i2: "store_inv h0 h2"
    unfolding h2_def
    by (rule fold_invariant [where I = "store_inv h0", OF i1])
       (simp add: kept_step_st_def store_inv_set_apply_at l)
  have len: "length h1 \<le> length h2"
    unfolding h2_def
    by (rule fold_invariant [where I = "\<lambda>s. length h1 \<le> length s"])
       (simp_all add: kept_step_st_def set_apply_at_def)
  then have "length h < length h2" by (simp add: h1_def)
  from store_inv_setitem [OF i2 d l this]
  have "store_inv h0 (setitem pg A (length h) h2)" .
  with i x show ?thesis
    by (simp add: prods_gen_step_st_def new_set_def h2_def h1_def)
qed

lemma store_inv_prods_final_step:
  assumes i: "store_inv h0 h" and d: "length h0 \<le> pf"
  shows "store_inv h0 (prods_final_step_st reach pf x h)"
proof -
  obtain A bodies where x: "x = (A, bodies)" by (cases x)
  from store_inv_alloc_setitem [OF i d] i x show ?thesis
    by (simp add: prods_final_step_st_def)
qed

lemma store_inv_remove_useless_symbols:
  "store_inv h (snd (remove_useless_symbols_st start p h))"
proof -
  define gen where "gen = generating_nonterminals (view h p)"
  define h1 where "h1 = snd (new_dict h)"
  define pg where "pg = length h"
  have i1: "store_inv h h1" unfolding h1_def by (rule store_inv_new_dict [OF store_inv_refl])
  define h2 where "h2 = fold (prods_gen_step_st gen pg) (dict_at h1 p) h1"
  have i2: "store_inv h h2"
    unfolding h2_def
    by (rule fold_invariant [where I = "store_inv h", OF i1])
       (simp add: store_inv_prods_gen_step pg_def)
  define reach where "reach = reachable_nonterminals start (view h2 pg)"
  define h3 where "h3 = snd (new_dict h2)"
  define pf where "pf = length h2"
  have i3: "store_inv h h3" unfolding h3_def by (rule store_inv_new_dict [OF i2])
  from i2 have lpf: "length h \<le> pf" by (simp add: pf_def store_inv_def)
  define h4 where "h4 = fold (prods_final_step_st reach pf) (dict_at h3 pg) h3"
  have i4: "store_inv h h4"
    unfolding h4_def
    by (rule fold_invariant [where I = "store_inv h", OF i3])
       (simp add: store_inv_prods_final_step lpf)
  define h5 where "h5 = (if start \<notin> set (map fst (dict_at h4 pf))
     then (case new_set [] h4 of (c, h) \<Rightarrow> setitem pf start c h) else h4)"
  have i5: "store_inv h h5"
    unfolding h5_def using store_inv_alloc_setitem [OF i4 lpf] i4 by simp
  have "snd (remove_useless_symbols_st start p h) = h5"
    by (simp add: remove_useless_symbols_st_def Let_def new_dict_def h5_def h4_def h3_def
        h2_def h1_def pg_def pf_def gen_def reach_def)
  with i5 show ?thesis by simp
qed

definition cnf1_inv_st :: "store \<Rightarrow> cnf1_state_st \<Rightarrow> bool" where
  "cnf1_inv_st h0 st = store_inv h0 (snd (snd st))"

definition cnf2_inv_st :: "store \<Rightarrow> string list \<times> store \<Rightarrow> bool" where
  "cnf2_inv_st h0 st = store_inv h0 (snd st)"

definition chain_inv_st :: "store \<Rightarrow> chain_state_st \<Rightarrow> bool" where
  "chain_inv_st h0 st = store_inv h0 (fst (snd st))"

lemma cnf1_body_step_st_inv:
  "cnf1_inv_st h0 st \<Longrightarrow> length h0 \<le> c1 \<Longrightarrow> cnf1_inv_st h0 (cnf1_body_step_st start c1 A b st)"
  by (cases st)
     (auto simp: cnf1_inv_st_def cnf1_body_step_st_def store_inv_item_apply split: prod.splits)

lemma chain_step_st_inv:
  "chain_inv_st h0 st \<Longrightarrow> length h0 \<le> c2 \<Longrightarrow> chain_inv_st h0 (chain_step_st c2 X st)"
  by (cases st)
     (auto simp: chain_inv_st_def chain_step_st_def store_inv_setdefault_add split: prod.splits)

lemma cnf2_body_step_st_inv:
  assumes "cnf2_inv_st h0 st" and c2: "length h0 \<le> c2"
  shows "cnf2_inv_st h0 (cnf2_body_step_st start c2 A b st)"
proof -
  obtain used h where st: "st = (used, h)" by (cases st)
  with assms have i: "store_inv h0 h" by (simp add: cnf2_inv_st_def)
  then have c: "chain_inv_st h0 (used, h, A)" by (simp add: chain_inv_st_def)
  have "chain_inv_st h0 (fold (chain_step_st c2) (take (length b - 2) b) (used, h, A))"
    by (rule fold_invariant [where I = "chain_inv_st h0", OF c])
       (rule chain_step_st_inv [OF _ c2])
  with i c2 st show ?thesis
    by (auto simp: cnf2_inv_st_def chain_inv_st_def cnf2_body_step_st_def store_inv_item_apply
        store_inv_setdefault_add split: prod.splits)
qed

lemma store_inv_to_cnf: "store_inv h (snd (to_cnf_st start p h))"
proof -
  obtain c1 h1 where e1: "empty_like_st p h = (c1, h1)" by (cases "empty_like_st p h")
  from store_inv_empty_like_st [OF store_inv_refl, where p = p and h = h] e1
  have i1: "store_inv h h1" and c1: "length h \<le> c1" by simp_all
  define st1 where "st1 = fold (\<lambda>(A, bodies) st.
      fold (cnf1_body_step_st start c1 A) (set_at (snd (snd st)) bodies) st)
      (dict_at h1 p) (map fst (dict_at h1 p), [], h1)"
  have "cnf1_inv_st h st1"
    unfolding st1_def
  proof (rule fold_invariant [where I = "cnf1_inv_st h"])
    show "cnf1_inv_st h (map fst (dict_at h1 p), [], h1)" using i1 by (simp add: cnf1_inv_st_def)
  next
    fix x :: "string \<times> nat" and s :: cnf1_state_st assume s: "cnf1_inv_st h s"
    obtain A bodies where x: "x = (A, bodies)" by (cases x)
    have "cnf1_inv_st h (fold (cnf1_body_step_st start c1 A) (set_at (snd (snd s)) bodies) s)"
      by (rule fold_invariant [where I = "cnf1_inv_st h", OF s])
         (rule cnf1_body_step_st_inv [OF _ c1])
    with x show "cnf1_inv_st h ((case x of (A, bodies) \<Rightarrow> \<lambda>st.
        fold (cnf1_body_step_st start c1 A) (set_at (snd (snd st)) bodies) st) s)" by simp
  qed
  obtain used term_var h2 where s1: "st1 = (used, term_var, h2)" by (cases st1)
  with \<open>cnf1_inv_st h st1\<close> have i2: "store_inv h h2" by (simp add: cnf1_inv_st_def)
  define h3 where "h3 = fold (\<lambda>(a, Va) h. setdefault_add c1 Va a h) term_var h2"
  have i3: "store_inv h h3"
    unfolding h3_def
    by (rule fold_invariant [where I = "store_inv h", OF i2])
       (auto simp: store_inv_setdefault_add c1)
  obtain c2 h4 where e2: "empty_like_st c1 h3 = (c2, h4)" by (cases "empty_like_st c1 h3")
  from store_inv_empty_like_st [OF i3, where p = c1] e2
  have i4: "store_inv h h4" and c2: "length h \<le> c2" by simp_all
  define st2 where "st2 = fold (\<lambda>(A, bodies) st.
      fold (cnf2_body_step_st start c2 A) (set_at (snd st) bodies) st)
      (dict_at h4 c1) (map fst (dict_at h4 c1), h4)"
  have "cnf2_inv_st h st2"
    unfolding st2_def
  proof (rule fold_invariant [where I = "cnf2_inv_st h"])
    show "cnf2_inv_st h (map fst (dict_at h4 c1), h4)" using i4 by (simp add: cnf2_inv_st_def)
  next
    fix x :: "string \<times> nat" and s :: "string list \<times> store" assume s: "cnf2_inv_st h s"
    obtain A bodies where x: "x = (A, bodies)" by (cases x)
    have "cnf2_inv_st h (fold (cnf2_body_step_st start c2 A) (set_at (snd s) bodies) s)"
      by (rule fold_invariant [where I = "cnf2_inv_st h", OF s])
         (rule cnf2_body_step_st_inv [OF _ c2])
    with x show "cnf2_inv_st h ((case x of (A, bodies) \<Rightarrow> \<lambda>st.
        fold (cnf2_body_step_st start c2 A) (set_at (snd st) bodies) st) s)" by simp
  qed
  moreover have "snd (to_cnf_st start p h) = snd st2"
    using s1 by (simp add: to_cnf_st_def e1 e2 Let_def st1_def [symmetric] h3_def [symmetric]
        st2_def)
  ultimately show ?thesis by (simp add: cnf2_inv_st_def)
qed

lemma view_unchanged:
  assumes "store_inv h h'" and "in_store h p"
  shows "dict_at h' p = dict_at h p \<and> view h' p = view h p"
proof -
  from assms(1) have t: "take (length h) h' = h" and l: "length h \<le> length h'"
    by (simp_all add: store_inv_def)
  have n: "h' ! a = h ! a" if "a < length h" for a
    using that t by (metis nth_take)
  from assms(2) n l have d: "dict_at h' p = dict_at h p"
    by (auto simp: dict_at_def in_store_def)
  have "set_at h' a = set_at h a" if "a < length h" for a
    using that n l by (auto simp: set_at_def)
  with assms(2) have "map (\<lambda>(k, a). (k, set_at h' a)) (dict_at h p) =
      map (\<lambda>(k, a). (k, set_at h a)) (dict_at h p)"
    by (auto simp: in_store_def list_all_iff)
  with d show ?thesis by (simp add: view_def)
qed

section \<open>A chain of four unit productions\<close>

lemma chain_unit_bodies:
  "is_unit_body ''B''" "is_unit_body ''C''" "is_unit_body ''D''" "\<not> is_unit_body ''d''"
  by code_simp+

lemma chain_unit_init: "unit_init (keys chain_grammar) =
   dict_get [(''A'', [''A'']), (''B'', [''B'']), (''C'', [''C'']), (''D'', [''D''])]"
  by (auto simp: fun_eq_iff unit_init_def dict_get_def chain_grammar_def keys_def)

lemma chain_unit_pass1: "unit_pass chain_grammar (keys chain_grammar)
     (dict_get [(''A'', [''A'']), (''B'', [''B'']), (''C'', [''C'']), (''D'', [''D''])], False)
   = (dict_get [(''A'', [''A'', ''B'']), (''B'', [''B'', ''C'']), (''C'', [''C'', ''D'']), (''D'', [''D''])], True)"
  by (simp add: unit_pass_def unit_add_step_def unit_union_step_def fun_upd_dict_get
      chain_unit_bodies chain_grammar_def keys_def dict_get_def dict_upd_def set_add_def
      set_update_def)

lemma chain_unit_pass2: "unit_pass chain_grammar (keys chain_grammar)
     (dict_get [(''A'', [''A'', ''B'']), (''B'', [''B'', ''C'']), (''C'', [''C'', ''D'']), (''D'', [''D''])], False)
   = (dict_get [(''A'', [''A'', ''B'', ''C'']), (''B'', [''B'', ''C'', ''D'']), (''C'', [''C'', ''D'']), (''D'', [''D''])], False)"
  by (simp add: unit_pass_def unit_add_step_def unit_union_step_def fun_upd_dict_get
      chain_unit_bodies chain_grammar_def keys_def dict_get_def dict_upd_def set_add_def
      set_update_def)

lemma chain_unit_loop: "unit_loop chain_grammar (unit_init (keys chain_grammar)) =
   dict_get [(''A'', [''A'', ''B'', ''C'']), (''B'', [''B'', ''C'', ''D'']), (''C'', [''C'', ''D'']), (''D'', [''D''])]"
  unfolding chain_unit_init
  by (subst unit_loop.simps, simp only: chain_unit_pass1 prod.case if_True,
      subst unit_loop.simps, simp only: chain_unit_pass2 prod.case if_False)

lemma eliminate_unit_productions_chain:
  "eliminate_unit_productions ''A'' chain_grammar =
     [(''A'', []), (''B'', [''d'']), (''C'', [''d'']), (''D'', [''d''])]"
  unfolding eliminate_unit_productions_def Let_def chain_unit_loop
  by (simp add: chain_grammar_def keys_def dict_get_def dict_upd_def unit_copy_bodies_def
      chain_unit_bodies set_add_def)

lemma chain_spec_unit_bodies: "''d'' \<in> spec_unit_bodies chain_grammar ''A''"
proof -
  have "unit_derives chain_grammar ''A'' ''A''" by (rule unit_refl)
  then have "unit_derives chain_grammar ''A'' ''B''"
    by (rule unit_step) (simp_all add: chain_unit_bodies chain_grammar_def dict_get_def)
  then have "unit_derives chain_grammar ''A'' ''C''"
    by (rule unit_step) (simp_all add: chain_unit_bodies chain_grammar_def dict_get_def)
  then have "unit_derives chain_grammar ''A'' ''D''"
    by (rule unit_step) (simp_all add: chain_unit_bodies chain_grammar_def dict_get_def)
  moreover have "''d'' \<in> set (dict_get chain_grammar ''D'')"
    by (simp add: chain_grammar_def dict_get_def)
  ultimately show ?thesis using chain_unit_bodies(4) unfolding spec_unit_bodies_def by blast
qed

section \<open>The stages on three small grammars\<close>

lemma to_cnf_clash: "to_cnf ''S'' clash_grammar =
     [(''S'', [''TY1'', ''a'']), (''A'', [''a'']), (''Ta1'', [''a'']),
      (''Y1'', [''aY2'']), (''Y2'', [''1A''])]"
  by code_simp

lemma pipeline_clash: "pipeline True ''S'' clash_grammar =
     [(''S'', [''TY1'', ''a'']), (''A'', [''a'']), (''Ta1'', [''a'']),
      (''Y1'', [''aY2'']), (''Y2'', [''1A''])]"
  by code_simp

lemma to_cnf_triple: "to_cnf ''S'' triple_grammar =
   [(''S'', [''AY1'']), (''A'', [''a'']), (''B'', [''b'']), (''C'', [''c'']), (''Y1'', [''BC''])]"
  by code_simp

lemma to_cnf_triple_again: "to_cnf ''S''
    [(''S'', [''AY1'']), (''A'', [''a'']), (''B'', [''b'']), (''C'', [''c'']), (''Y1'', [''BC''])] =
   [(''S'', [''AY2'']), (''A'', [''a'']), (''B'', [''b'']), (''C'', [''c'']),
    (''Y1'', [''BC'']), (''T11'', [''1'']), (''Y2'', [''YY3'']), (''Y3'', [''TY4'']),
    (''Y4'', [''11''])]"
  by code_simp

lemma chain_eliminate_epsilon: "eliminate_epsilon ''A'' chain_grammar True = chain_grammar"
  by code_simp

lemma chain_remove_useless_symbols: "remove_useless_symbols ''A''
     [(''A'', []), (''B'', [''d'']), (''C'', [''d'']), (''D'', [''d''])] = [(''A'', [])]"
  by code_simp

lemma chain_to_cnf: "to_cnf ''A'' [(''A'', [])] = [(''A'', [])]"
  by code_simp

lemma pipeline_chain: "pipeline True ''A'' chain_grammar = [(''A'', [])]"
  by (simp only: pipeline_def Let_def chain_eliminate_epsilon eliminate_unit_productions_chain chain_remove_useless_symbols chain_to_cnf)

lemma no_step_empty: "derives [(A, [])] x y \<Longrightarrow> y = x"
  unfolding derives_def
  by (induction rule: rtranclp_induct) (auto elim: derives_step.cases)

lemma chain_word: "in_language ''A'' chain_grammar ''d''"
proof -
  have b: "body_string ''B'' = ''B''" "body_string ''C'' = ''C''" "body_string ''D'' = ''D''"
    "body_string ''d'' = ''d''" by code_simp+
  have "derives chain_grammar ''A'' ''B''"
    using derives_production [of "''A''" "[''B'']" chain_grammar "''B''" "CHR ''A''"]
    by (simp add: chain_grammar_def b)
  moreover have "derives chain_grammar ''B'' ''C''"
    using derives_production [of "''B''" "[''C'']" chain_grammar "''C''" "CHR ''B''"]
    by (simp add: chain_grammar_def b)
  moreover have "derives chain_grammar ''C'' ''D''"
    using derives_production [of "''C''" "[''D'']" chain_grammar "''D''" "CHR ''C''"]
    by (simp add: chain_grammar_def b)
  moreover have "derives chain_grammar ''D'' ''d''"
    using derives_production [of "''D''" "[''d'']" chain_grammar "''d''" "CHR ''D''"]
    by (simp add: chain_grammar_def b)
  ultimately have "derives chain_grammar ''A'' ''d''" by (meson derives_trans)
  moreover have "list_all (\<lambda>ch. is_terminal [ch]) ''d''" by code_simp
  ultimately show ?thesis by (simp add: in_language_def)
qed

section \<open>Properties of the specification\<close>

text \<open>
  C1.  Every body of the grammar that \<open>to_cnf\<close> returns should be one terminal, two
  nonterminals, or \<open>"\<epsilon>"\<close> at the start symbol.  The function joins the names of the
  new nonterminals into the body string and the second pass splits that string character
  by character.  For \<open>S \<rightarrow> aA | a\<close>, \<open>A \<rightarrow> a\<close> the terminal \<open>a\<close> is lifted to
  \<open>Ta1\<close>, the body \<open>Ta1A\<close> is read as four symbols, and the returned grammar has
  \<open>Y2 \<rightarrow> 1A\<close>: a terminal followed by a nonterminal.
\<close>

theorem to_cnf_body_outside_normal_form:
  "valid_prods clash_grammar \<and>
   ''1A'' \<in> set (dict_get (pipeline True ''S'' clash_grammar) ''Y2'') \<and>
   \<not> cnf_body ''S'' (pipeline True ''S'' clash_grammar) ''Y2'' ''1A'' \<and>
   ''1A'' \<in> set (dict_get (to_cnf ''S'' clash_grammar) ''Y2'') \<and>
   \<not> cnf_body ''S'' (to_cnf ''S'' clash_grammar) ''Y2'' ''1A''"
proof -
  have "valid_prods clash_grammar" by code_simp
  moreover have "''1A'' \<in> set (dict_get (pipeline True ''S'' clash_grammar) ''Y2'') \<and>
     \<not> cnf_body ''S'' (pipeline True ''S'' clash_grammar) ''Y2'' ''1A''"
    unfolding pipeline_clash by code_simp
  ultimately show ?thesis by (simp add: pipeline_clash to_cnf_clash)
qed

text \<open>
  C2.  The specification gives to every nonterminal \<open>A\<close> the non-unit bodies of every
  \<open>B\<close> that \<open>A\<close> derives by a chain of unit productions, in whatever order the
  nonterminals are processed.  The loop of \<open>eliminate_unit_productions\<close> sets its flag
  only when a body of \<open>A\<close> itself is new, not when the union with the closure of
  \<open>B\<close> grows, and stops too early: in the grammar \<open>A \<rightarrow> B\<close>, \<open>B \<rightarrow> C\<close>, \<open>C \<rightarrow> D\<close>,
  \<open>D \<rightarrow> d\<close>, read in this order, the body \<open>d\<close> belongs to \<open>A\<close> by the
  specification and the function returns no body at all for \<open>A\<close>.
\<close>

theorem eliminate_unit_productions_misses_chain:
  "valid_prods chain_grammar \<and>
   ''d'' \<in> spec_unit_bodies chain_grammar ''A'' \<and>
   ''d'' \<notin> set (dict_get (eliminate_unit_productions ''A'' chain_grammar) ''A'')"
proof -
  have "valid_prods chain_grammar" by code_simp
  then show ?thesis
    by (simp add: chain_spec_unit_bodies eliminate_unit_productions_chain dict_get_def)
qed

text \<open>
  C3.  A word derivable from the start symbol of the given grammar should be derivable
  from the start symbol of the grammar at the end of the pipeline.  For the chain
  \<open>A \<rightarrow> B\<close>, \<open>B \<rightarrow> C\<close>, \<open>C \<rightarrow> D\<close>, \<open>D \<rightarrow> d\<close> the word \<open>d\<close> is in the language,
  and the pipeline returns a grammar in which \<open>A\<close> has no body.
\<close>

theorem pipeline_loses_word:
  "valid_prods chain_grammar \<and>
   in_language ''A'' chain_grammar ''d'' \<and>
   \<not> in_language ''A'' (pipeline True ''A'' chain_grammar) ''d''"
proof -
  have "valid_prods chain_grammar" by code_simp
  with chain_word no_step_empty [of "''A''" "''A''" "''d''"] show ?thesis
    by (auto simp: pipeline_chain in_language_def)
qed

text \<open>
  C4.  For a grammar that the parser returns, with its start symbol among the keys:
  with retention enabled, the returned grammar has the body \<open>"\<epsilon>"\<close> at \<open>A\<close> if and
  only if \<open>A\<close> is the start symbol and the start symbol derives the empty string in
  the given grammar; with or without retention, no nonterminal other than the start
  symbol has the body \<open>"\<epsilon>"\<close> in the returned grammar.
\<close>

theorem eliminate_epsilon_keeps_only_start_epsilon:
  assumes "valid_prods G" and "start \<in> set (keys G)"
  shows "(EPS \<in> set (dict_get (eliminate_epsilon start G True) A) \<longleftrightarrow>
            A = start \<and> derives G start []) \<and>
         (A \<noteq> start \<longrightarrow> EPS \<notin> set (dict_get (eliminate_epsilon start G keep_start_epsilon) A))"
proof -
  from assms(2) obtain bodies where "(start, bodies) \<in> set G" by (auto simp: keys_def)
  from valid_prods_key [OF assms(1) this] obtain X where "start = [X]" by blast
  with find_nullable_correct [OF assms(1), of X start]
  have "start \<in> set (find_nullable start G) \<longleftrightarrow> derives G start []" by simp
  then show ?thesis by (simp add: eliminate_epsilon_eps_iff [OF assms(1)])
qed

theorem eliminate_epsilon_keeps_only_start_epsilon_witness:
  "valid_prods scenario_grammar \<and> ''S'' \<in> set (keys scenario_grammar) \<and>
   EPS \<in> set (dict_get (eliminate_epsilon ''S'' scenario_grammar True) ''S'') \<and>
   derives scenario_grammar ''S'' [] \<and> ''A'' \<noteq> ''S'' \<and>
   EPS \<notin> set (dict_get (eliminate_epsilon ''S'' scenario_grammar False) ''A'')"
proof -
  have v: "valid_prods scenario_grammar" by code_simp
  have k: "''S'' \<in> set (keys scenario_grammar)" by code_simp
  have e: "EPS \<in> set (dict_get (eliminate_epsilon ''S'' scenario_grammar True) ''S'')"
    by code_simp
  from eliminate_epsilon_keeps_only_start_epsilon [OF v k, of "''S''" False] e
  have d: "derives scenario_grammar ''S'' []" by simp
  from eliminate_epsilon_keeps_only_start_epsilon [OF v k, of "''A''" False]
  have "EPS \<notin> set (dict_get (eliminate_epsilon ''S'' scenario_grammar False) ''A'')" by simp
  with v k e d show ?thesis by simp
qed

text \<open>
  C5.  In a grammar that the parser returns, a nonterminal \<open>A\<close> of the grammar is in
  the set returned by \<open>find_nullable\<close> if and only if \<open>A\<close> derives the empty string.
\<close>

theorem find_nullable_iff_derives_empty:
  assumes "valid_prods G" and "A \<in> set (keys G)"
  shows "A \<in> set (find_nullable start G) \<longleftrightarrow> derives G A []"
proof -
  from assms(2) obtain bodies where "(A, bodies) \<in> set G" by (auto simp: keys_def)
  from valid_prods_key [OF assms(1) this] obtain X where "A = [X]" by blast
  with find_nullable_correct [OF assms(1)] show ?thesis by simp
qed

theorem find_nullable_iff_derives_empty_witness:
  "valid_prods scenario_grammar \<and> ''S'' \<in> set (keys scenario_grammar) \<and>
   ''S'' \<in> set (find_nullable ''S'' scenario_grammar) \<and> derives scenario_grammar ''S'' []"
proof -
  have v: "valid_prods scenario_grammar" by code_simp
  have k: "''S'' \<in> set (keys scenario_grammar)" by code_simp
  have n: "''S'' \<in> set (find_nullable ''S'' scenario_grammar)" by code_simp
  from find_nullable_iff_derives_empty [OF v k, of "''S''"] n v k show ?thesis by simp
qed

text \<open>
  C6.  As stated, every nonterminal with an entry in the grammar returned by
  \<open>remove_useless_symbols\<close> is reachable from the start symbol and derives a string
  of terminals.  The function keeps an entry for the start symbol in every case, with
  no body when the start symbol is not generating: for \<open>S \<rightarrow> SS\<close> the entry of \<open>S\<close>
  is there and \<open>S\<close> derives no string of terminals.
\<close>

theorem remove_useless_symbols_start_not_generating:
  "''S'' \<in> set (keys (remove_useless_symbols ''S'' loop_grammar)) \<and>
   \<not> generating_in (remove_useless_symbols ''S'' loop_grammar) ''S''"
proof -
  have out: "remove_useless_symbols ''S'' loop_grammar = [(''S'', [])]" by code_simp
  have "y = x" if "derives [(''S'', [])] x y" for x y
    using that unfolding derives_def
    by (induction rule: rtranclp_induct) (auto elim: derives_step.cases)
  moreover have "\<not> list_all (\<lambda>ch. is_terminal [ch]) ''S''" by code_simp
  ultimately have "\<not> generating_in [(''S'', [])] ''S''"
    unfolding generating_in_def by blast
  with out show ?thesis by simp
qed

text \<open>
  C6, amended.  For a grammar that the parser returns, every nonterminal with an entry
  in the grammar returned by \<open>remove_useless_symbols\<close> is reachable from the start
  symbol, and every such nonterminal, except the start symbol when the entry of the
  start symbol has no body, derives a string of terminals within the returned grammar.
\<close>

theorem remove_useless_symbols_entries:
  assumes "valid_prods G" and "A \<in> set (keys (remove_useless_symbols start G))"
  shows "reachable_in start (remove_useless_symbols start G) A \<and>
         (A \<noteq> start \<or> dict_get (remove_useless_symbols start G) start \<noteq> [] \<longrightarrow>
            generating_in (remove_useless_symbols start G) A)"
proof -
  let ?G = "generating_nonterminals G"
  let ?R = "reachable_nonterminals start (prods_gen_of ?G G)"
  have r: "reachable_in start (remove_useless_symbols start G) A"
  proof (cases "A = start")
    case True
    have "reach_in (prods_gen_of ?G G) start start" by (rule reach_in_start)
    from reach_in_reachable [OF assms(1) this] True show ?thesis by simp
  next
    case False
    with assms(2) have "A \<in> set (keys (useless_final start G))"
      by (simp add: keys_remove_useless_symbols)
    then have "A \<in> set ?R" by (simp add: useless_final_key)
    then have "reach_in (prods_gen_of ?G G) start A" by (simp add: reachable_nonterminals_iff)
    from reach_in_reachable [OF assms(1) this] show ?thesis .
  qed
  have g: "generating_in (remove_useless_symbols start G) A"
    if "A \<noteq> start \<or> dict_get (remove_useless_symbols start G) start \<noteq> []"
  proof -
    have "A \<in> set (keys (useless_final start G))"
    proof (cases "A = start")
      case True
      with that have "dict_get (useless_final start G) A \<noteq> []"
        by (simp add: dict_get_remove_useless_symbols)
      then show ?thesis using dict_get_not_key by blast
    next
      case False
      with assms(2) show ?thesis by (simp add: keys_remove_useless_symbols)
    qed
    then have "A \<in> set ?G" "A \<in> set ?R" by (simp_all add: useless_final_key)
    from gen_list_generating [OF assms(1) generating_nonterminals_list [OF assms(1)]
        subset_refl this]
    show ?thesis .
  qed
  from r g show ?thesis by blast
qed

theorem remove_useless_symbols_entries_witness:
  "valid_prods useless_grammar \<and>
   ''A'' \<in> set (keys (remove_useless_symbols ''S'' useless_grammar)) \<and>
   reachable_in ''S'' (remove_useless_symbols ''S'' useless_grammar) ''A'' \<and>
   ''A'' \<noteq> ''S'' \<and>
   generating_in (remove_useless_symbols ''S'' useless_grammar) ''A''"
proof -
  have v: "valid_prods useless_grammar" by code_simp
  have k: "''A'' \<in> set (keys (remove_useless_symbols ''S'' useless_grammar))" by code_simp
  from remove_useless_symbols_entries [OF v k] v k show ?thesis by simp
qed

text \<open>
  C7.  The grammar returned by \<open>remove_useless_symbols\<close> always has an entry for the
  start symbol, with no body when the start symbol is not generating; \<open>to_cnf\<close>,
  given a grammar in which the start symbol has an entry with no body, returns a grammar
  with no body for the start symbol; so does the conversion of what
  \<open>remove_useless_symbols\<close> returns for a start symbol that is not generating.
\<close>

theorem start_symbol_entry_kept:
  "start \<in> set (keys (remove_useless_symbols start G)) \<and>
   (start \<notin> set (generating_nonterminals G) \<longrightarrow>
      dict_get (remove_useless_symbols start G) start = [] \<and>
      dict_get (to_cnf start (remove_useless_symbols start G)) start = []) \<and>
   (distinct (keys G) \<and> start \<in> set (keys G) \<and> dict_get G start = [] \<longrightarrow>
      dict_get (to_cnf start G) start = [])"
proof -
  let ?R = "remove_useless_symbols start G"
  have d: "distinct (keys ?R)"
    by (simp add: remove_useless_symbols_alt keys_dict_set useless_final_def Let_def
        filter_fold_distinct)
  from remove_useless_symbols_start [of start G] to_cnf_start_empty [OF d, of start]
    to_cnf_start_empty [of G start]
  show ?thesis by blast
qed

theorem start_symbol_entry_kept_witness:
  "''S'' \<notin> set (generating_nonterminals [(''S'', [''SS''])]) \<and>
   dict_get (remove_useless_symbols ''S'' [(''S'', [''SS''])]) ''S'' = [] \<and>
   dict_get (to_cnf ''S'' (remove_useless_symbols ''S'' [(''S'', [''SS''])])) ''S'' = [] \<and>
   distinct (keys [(''S'', []), (''A'', [''aAA''])]) \<and>
   ''S'' \<in> set (keys [(''S'', []), (''A'', [''aAA''])]) \<and>
   dict_get [(''S'', []), (''A'', [''aAA''])] ''S'' = [] \<and>
   dict_get (to_cnf ''S'' [(''S'', []), (''A'', [''aAA''])]) ''S'' = []"
proof -
  have g: "''S'' \<notin> set (generating_nonterminals [(''S'', [''SS''])])" by code_simp
  have h: "distinct (keys [(''S'', []), (''A'', [''aAA''])]) \<and>
     ''S'' \<in> set (keys [(''S'', []), (''A'', [''aAA''])]) \<and>
     dict_get [(''S'', []), (''A'', [''aAA''])] ''S'' = []" by simp
  from start_symbol_entry_kept [of "''S''" "[(''S'', [''SS''])]"] g
    start_symbol_entry_kept [of "''S''" "[(''S'', []), (''A'', [''aAA''])]"] h
  show ?thesis by blast
qed

text \<open>
  C8.  Applying a stage to its own result should change nothing.  \<open>to_cnf\<close> reads the
  name \<open>Y1\<close>, which it has written into a body, as the nonterminal \<open>Y\<close> followed
  by the terminal \<open>1\<close>: for \<open>S \<rightarrow> ABC\<close> the first run returns \<open>S \<rightarrow> AY1\<close> and the
  second run \<open>S \<rightarrow> AY2\<close>.
\<close>

theorem to_cnf_not_idempotent:
  "valid_prods triple_grammar \<and>
   set (dict_get (to_cnf ''S'' triple_grammar) ''S'') = {''AY1''} \<and>
   set (dict_get (to_cnf ''S'' (to_cnf ''S'' triple_grammar)) ''S'') = {''AY2''} \<and>
   set (dict_get (to_cnf ''S'' (to_cnf ''S'' triple_grammar)) ''S'') \<noteq>
     set (dict_get (to_cnf ''S'' triple_grammar) ''S'')"
proof -
  have "valid_prods triple_grammar" by code_simp
  then show ?thesis unfolding to_cnf_triple to_cnf_triple_again by simp
qed

text \<open>
  C9.  No stage changes an object that exists when it is called: the store before the
  call is an initial segment of the store after it, and the input dictionary, read in
  the store after the call, has the entries and the body sets it had before.
\<close>

theorem stages_leave_input_unchanged:
  assumes "in_store h prods"
  shows "(take (length h) (snd (eliminate_epsilon_st start prods keep_start_epsilon h)) = h \<and>
          view (snd (eliminate_epsilon_st start prods keep_start_epsilon h)) prods = view h prods) \<and>
         (take (length h) (snd (eliminate_unit_productions_st start prods h)) = h \<and>
          view (snd (eliminate_unit_productions_st start prods h)) prods = view h prods) \<and>
         (take (length h) (snd (remove_useless_symbols_st start prods h)) = h \<and>
          view (snd (remove_useless_symbols_st start prods h)) prods = view h prods) \<and>
         (take (length h) (snd (to_cnf_st start prods h)) = h \<and>
          view (snd (to_cnf_st start prods h)) prods = view h prods)"
  using view_unchanged [OF store_inv_eliminate_epsilon assms]
    view_unchanged [OF store_inv_eliminate_unit_productions assms]
    view_unchanged [OF store_inv_remove_useless_symbols assms]
    view_unchanged [OF store_inv_to_cnf assms]
    store_inv_eliminate_epsilon [of h start prods keep_start_epsilon]
    store_inv_eliminate_unit_productions [of h start prods]
    store_inv_remove_useless_symbols [of h start prods]
    store_inv_to_cnf [of h start prods]
  by (simp add: store_inv_def)

text \<open>
  On the grammar of the scenario the stages on the store leave the input as it was;
  three of them are also compared here with the functions above, which return the same
  grammar.
\<close>

theorem stages_leave_input_unchanged_witness:
  "in_store scenario_store 3 \<and> view scenario_store 3 = scenario_grammar \<and>
   (case eliminate_epsilon_st ''S'' 3 True scenario_store of
      (p, h) \<Rightarrow> view h p = eliminate_epsilon ''S'' scenario_grammar True \<and>
                view h 3 = scenario_grammar) \<and>
   (case eliminate_unit_productions_st ''S'' 3 scenario_store of
      (p, h) \<Rightarrow> view h p = eliminate_unit_productions ''S'' scenario_grammar \<and>
                view h 3 = scenario_grammar) \<and>
   (case remove_useless_symbols_st ''S'' 3 scenario_store of
      (p, h) \<Rightarrow> view h 3 = scenario_grammar) \<and>
   (case to_cnf_st ''S'' 3 scenario_store of
      (p, h) \<Rightarrow> view h p = to_cnf ''S'' scenario_grammar \<and> view h 3 = scenario_grammar)"
proof -
  have i: "in_store scenario_store 3" by code_simp
  have v: "view scenario_store 3 = scenario_grammar" by code_simp
  have e: "view (snd (eliminate_epsilon_st ''S'' 3 True scenario_store))
       (fst (eliminate_epsilon_st ''S'' 3 True scenario_store)) =
     eliminate_epsilon ''S'' scenario_grammar True" by code_simp
  have u: "view (snd (eliminate_unit_productions_st ''S'' 3 scenario_store))
       (fst (eliminate_unit_productions_st ''S'' 3 scenario_store)) =
     eliminate_unit_productions ''S'' scenario_grammar" by code_simp
  have c: "view (snd (to_cnf_st ''S'' 3 scenario_store))
       (fst (to_cnf_st ''S'' 3 scenario_store)) =
     to_cnf ''S'' scenario_grammar" by code_simp
  from stages_leave_input_unchanged [OF i, of "''S''" True] i v e u c
  show ?thesis by (simp add: case_prod_beta)
qed

text \<open>
  C10.  For a grammar that the parser returns, when \<open>keep_start_epsilon\<close> is false the
  returned grammar has at no nonterminal, the start symbol included, the body
  \<open>"\<epsilon>"\<close>, nor an empty body.
\<close>

theorem eliminate_epsilon_without_retention:
  assumes "valid_prods G"
  shows "EPS \<notin> set (dict_get (eliminate_epsilon start G False) A) \<and>
         [] \<notin> set (dict_get (eliminate_epsilon start G False) A)"
  by (simp add: eliminate_epsilon_eps_iff [OF assms] eliminate_epsilon_no_empty [OF assms])

theorem eliminate_epsilon_without_retention_witness:
  "valid_prods scenario_grammar \<and>
   EPS \<in> set (dict_get scenario_grammar ''S'') \<and>
   EPS \<notin> set (dict_get (eliminate_epsilon ''S'' scenario_grammar False) ''S'')"
proof -
  have v: "valid_prods scenario_grammar" by code_simp
  have e: "EPS \<in> set (dict_get scenario_grammar ''S'')" by code_simp
  from eliminate_epsilon_without_retention [OF v, of "''S''" "''S''"] v e show ?thesis by simp
qed

end
